theory Spec2Isabelle
  imports Main "HOL-Library.Sublist"
begin

section \<open>Strings of the host language\<close>

text \<open>
  The markdown renderer of \<^verbatim>\<open>src/components/common/markdown.tsx\<close> is a chain of
  \<^verbatim>\<open>String.prototype.replace\<close> calls with regular-expression literals. The embedding
  has two layers: a backtracking matcher for the regular-expression constructs that occur
  in the file, with the replace loop of the language on top of it, and the two source
  functions \<^verbatim>\<open>parseMarkdown\<close> and \<^verbatim>\<open>highlightCode\<close> written stage by stage over that.

  A string is a list of code units; the model covers the code units below 256. Of the
  WhiteSpace and LineTerminator code units of the language these are the ones in range.
\<close>

definition lineTerminators :: string where
  "lineTerminators = [CHR 0x0A, CHR 0x0D]"

definition whiteSpace :: string where
  "whiteSpace = [CHR 0x09, CHR 0x0A, CHR 0x0B, CHR 0x0C, CHR 0x0D, CHR 0x20, CHR 0xA0]"

definition digitChars :: string where
  "digitChars = ''0123456789''"

definition wordChars :: string where
  "wordChars = ''abcdefghijklmnopqrstuvwxyzABCDEFGHIJKLMNOPQRSTUVWXYZ0123456789_''"

definition toUpperChar :: "char \<Rightarrow> char" where
  "toUpperChar c =
     (let n = (of_char c :: nat)
      in if (97 \<le> n \<and> n \<le> 122) \<or> (224 \<le> n \<and> n \<le> 254 \<and> n \<noteq> 247)
         then char_of (n - 32) else c)"

definition toLowerChar :: "char \<Rightarrow> char" where
  "toLowerChar c =
     (let n = (of_char c :: nat)
      in if (65 \<le> n \<and> n \<le> 90) \<or> (192 \<le> n \<and> n \<le> 222 \<and> n \<noteq> 215)
         then char_of (n + 32) else c)"

definition toLowerCase :: "string \<Rightarrow> string" where
  "toLowerCase s = map toLowerChar s"

text \<open>\<^verbatim>\<open>String.prototype.trim\<close>: white space and line terminators go from both ends.\<close>

definition trim :: "string \<Rightarrow> string" where
  "trim s = rev (dropWhile (\<lambda>c. c \<in> set whiteSpace) (rev (dropWhile (\<lambda>c. c \<in> set whiteSpace) s)))"

definition startsWith :: "string \<Rightarrow> string \<Rightarrow> bool" where
  "startsWith s p = prefix p s"

section \<open>Regular expressions\<close>

datatype citem =
    CChar char
  | CRange char char
  | CWord
  | CDigit
  | CSpace
  | CNonSpace

datatype regex =
    Eps
  | Chr char
  | Dot
  | Class bool "citem list"
  | Seq regex regex
  | Alt regex regex
  | Star regex
  | LazyStar regex
  | Group nat regex
  | Bol
  | Eol
  | WordB
  | Backref nat
  | NegLook regex

text \<open>
  \<^verbatim>\<open>Class neg items\<close> is a bracket class, \<^verbatim>\<open>neg\<close> for a leading \<^verbatim>\<open>^\<close>; the escapes
  \<^verbatim>\<open>\w \d \s\<close> outside brackets are one-item classes. \<^verbatim>\<open>Group n r\<close> is the n-th capturing
  parenthesis; a non-capturing parenthesis is plain nesting. The bounded and derived
  quantifiers unfold into \<^verbatim>\<open>Seq\<close>, \<^verbatim>\<open>Alt\<close> and \<^verbatim>\<open>Star\<close>.
\<close>

definition oneOrMore :: "regex \<Rightarrow> regex" where
  "oneOrMore r = Seq r (Star r)"

definition optional :: "regex \<Rightarrow> regex" where
  "optional r = Alt r Eps"

primrec atLeastN :: "nat \<Rightarrow> regex \<Rightarrow> regex" where
  "atLeastN 0 r = Star r"
| "atLeastN (Suc n) r = Seq r (atLeastN n r)"

primrec seq :: "regex list \<Rightarrow> regex" where
  "seq [] = Eps"
| "seq (r # rs) = Seq r (seq rs)"

definition lit :: "string \<Rightarrow> regex list" where
  "lit s = map Chr s"

record flags =
  ignoreCase :: bool
  multiline :: bool

definition flags_g :: flags where
  "flags_g = \<lparr>ignoreCase = False, multiline = False\<rparr>"

definition flags_gm :: flags where
  "flags_gm = \<lparr>ignoreCase = False, multiline = True\<rparr>"

definition flags_gi :: flags where
  "flags_gi = \<lparr>ignoreCase = True, multiline = False\<rparr>"

definition canonicalize :: "flags \<Rightarrow> char \<Rightarrow> char" where
  "canonicalize fl c = (if ignoreCase fl then toUpperChar c else c)"

fun citemMatch :: "citem \<Rightarrow> char \<Rightarrow> bool" where
  "citemMatch (CChar a) c = (c = a)"
| "citemMatch (CRange a b) c = ((of_char a :: nat) \<le> of_char c \<and> (of_char c :: nat) \<le> of_char b)"
| "citemMatch CWord c = (c \<in> set wordChars)"
| "citemMatch CDigit c = (c \<in> set digitChars)"
| "citemMatch CSpace c = (c \<in> set whiteSpace)"
| "citemMatch CNonSpace c = (c \<notin> set whiteSpace)"

definition classMatch :: "flags \<Rightarrow> citem list \<Rightarrow> char \<Rightarrow> bool" where
  "classMatch fl items c =
     (list_ex (\<lambda>i. citemMatch i c) items \<or>
      (ignoreCase fl \<and>
        (list_ex (\<lambda>i. citemMatch i (toUpperChar c)) items \<or>
         list_ex (\<lambda>i. citemMatch i (toLowerChar c)) items)))"

type_synonym captures = "nat \<Rightarrow> string option"

text \<open>
  A matcher state is the text before the position (reversed, nearest character first), the
  text from the position on, and the captures so far.
\<close>

type_synonym mstate = "string \<times> string \<times> captures"

definition remaining :: "mstate \<Rightarrow> nat" where
  "remaining st = length (fst (snd st))"

definition isWordAt :: "string \<Rightarrow> bool" where
  "isWordAt xs = (case xs of [] \<Rightarrow> False | x # _ \<Rightarrow> x \<in> set wordChars)"

definition atLineBreak :: "string \<Rightarrow> bool" where
  "atLineBreak xs = (case xs of [] \<Rightarrow> False | x # _ \<Rightarrow> x \<in> set lineTerminators)"

text \<open>
  The matcher returns every way the expression matches at the state, in the order the
  backtracking search of the language tries them: the head of the list is the match the
  language reports. A greedy star tries another iteration before stopping, a lazy one
  stops first; an iteration that consumes nothing is rejected.
\<close>

function m :: "flags \<Rightarrow> regex \<Rightarrow> mstate \<Rightarrow> mstate list" where
  "m fl Eps st = [st]"
| "m fl (Chr c) (b, xs, k) =
     (case xs of [] \<Rightarrow> []
      | x # xs' \<Rightarrow> if canonicalize fl x = canonicalize fl c then [(x # b, xs', k)] else [])"
| "m fl Dot (b, xs, k) =
     (case xs of [] \<Rightarrow> []
      | x # xs' \<Rightarrow> if x \<in> set lineTerminators then [] else [(x # b, xs', k)])"
| "m fl (Class neg items) (b, xs, k) =
     (case xs of [] \<Rightarrow> []
      | x # xs' \<Rightarrow> if classMatch fl items x \<noteq> neg then [(x # b, xs', k)] else [])"
| "m fl (Seq r1 r2) st = concat (map (m fl r2) (m fl r1 st))"
| "m fl (Alt r1 r2) st = m fl r1 st @ m fl r2 st"
| "m fl (Star r) st =
     concat (map (m fl (Star r)) (filter (\<lambda>st'. remaining st' < remaining st) (m fl r st))) @ [st]"
| "m fl (LazyStar r) st =
     st # concat (map (m fl (LazyStar r)) (filter (\<lambda>st'. remaining st' < remaining st) (m fl r st)))"
| "m fl (Group n r) (b, xs, k) =
     map (\<lambda>(b', xs', k'). (b', xs', k'(n \<mapsto> take (length xs - length xs') xs)))
         (m fl r (b, xs, k))"
| "m fl Bol (b, xs, k) =
     (if b = [] \<or> (multiline fl \<and> atLineBreak b) then [(b, xs, k)] else [])"
| "m fl Eol (b, xs, k) =
     (if xs = [] \<or> (multiline fl \<and> atLineBreak xs) then [(b, xs, k)] else [])"
| "m fl WordB (b, xs, k) =
     (if isWordAt b \<noteq> isWordAt xs then [(b, xs, k)] else [])"
| "m fl (Backref n) (b, xs, k) =
     (case k n of None \<Rightarrow> [(b, xs, k)]
      | Some w \<Rightarrow>
          if length w \<le> length xs \<and>
             map (canonicalize fl) (take (length w) xs) = map (canonicalize fl) w
          then [(rev (take (length w) xs) @ b, drop (length w) xs, k)] else [])"
| "m fl (NegLook r) st = (if m fl r st = [] then [st] else [])"
  by pat_completeness auto
termination
  by (relation "inv_image (less_than <*lex*> less_than) (\<lambda>(fl, r, st). (size r, remaining st))")
     auto


section \<open>The global replace loop\<close>

text \<open>
  \<^verbatim>\<open>String.prototype.replace\<close> with a global expression searches from the end of the
  previous match, at each position in turn, and takes the first match found; after an
  empty match the search resumes one position further on. The loop yields the input cut
  into unmatched characters and matches, each match with its captures.
\<close>

datatype seg = Unmatched char | Matched string captures

function scan :: "flags \<Rightarrow> regex \<Rightarrow> string \<Rightarrow> string \<Rightarrow> seg list" where
  "scan fl r b [] =
     (case m fl r (b, [], Map.empty) of
        [] \<Rightarrow> []
      | st # _ \<Rightarrow> [Matched [] (snd (snd st))])"
| "scan fl r b (x # xs) =
     (case m fl r (b, x # xs, Map.empty) of
        [] \<Rightarrow> Unmatched x # scan fl r (x # b) xs
      | st # _ \<Rightarrow>
          if remaining st < Suc (length xs)
          then Matched (take (Suc (length xs) - remaining st) (x # xs)) (snd (snd st))
                 # scan fl r (fst st) (fst (snd st))
          else Matched [] (snd (snd st)) # Unmatched x # scan fl r (x # b) xs)"
  by pat_completeness auto
termination
  by (relation "measure (\<lambda>(fl, r, b, xs). length xs)") (auto simp: remaining_def)

text \<open>
  A replacement string is a list of pieces: literal text, \<^verbatim>\<open>$n\<close> and \<^verbatim>\<open>$&\<close>. A group
  that did not take part in the match substitutes the empty string.
\<close>

datatype piece = PLit string | PGroup nat | PWhole

fun expandPiece :: "string \<Rightarrow> captures \<Rightarrow> piece \<Rightarrow> string" where
  "expandPiece mt k (PLit s) = s"
| "expandPiece mt k (PGroup n) = (case k n of None \<Rightarrow> [] | Some w \<Rightarrow> w)"
| "expandPiece mt k PWhole = mt"

definition getSubstitution :: "piece list \<Rightarrow> string \<Rightarrow> captures \<Rightarrow> string" where
  "getSubstitution tmpl mt k = concat (map (expandPiece mt k) tmpl)"

fun segText :: "piece list \<Rightarrow> seg \<Rightarrow> string" where
  "segText tmpl (Unmatched c) = [c]"
| "segText tmpl (Matched mt k) = getSubstitution tmpl mt k"

definition replaceRx :: "flags \<Rightarrow> regex \<Rightarrow> piece list \<Rightarrow> string \<Rightarrow> string" where
  "replaceRx fl r tmpl s = concat (map (segText tmpl) (scan fl r [] s))"

text \<open>
  With a replacer function the function is called once per match, in order, and an
  exception it throws ends the call.
\<close>

datatype error = TypeError | RangeError

fun joinSegs :: "(string \<Rightarrow> captures \<Rightarrow> error + string) \<Rightarrow> seg list \<Rightarrow> error + string" where
  "joinSegs fn [] = Inr []"
| "joinSegs fn (Unmatched c # segs) =
     (case joinSegs fn segs of Inl e \<Rightarrow> Inl e | Inr t \<Rightarrow> Inr (c # t))"
| "joinSegs fn (Matched mt k # segs) =
     (case fn mt k of Inl e \<Rightarrow> Inl e
      | Inr rep \<Rightarrow> (case joinSegs fn segs of Inl e \<Rightarrow> Inl e | Inr t \<Rightarrow> Inr (rep @ t)))"

definition replaceRxFn ::
  "flags \<Rightarrow> regex \<Rightarrow> (string \<Rightarrow> captures \<Rightarrow> error + string) \<Rightarrow> string \<Rightarrow> error + string" where
  "replaceRxFn fl r fn s = joinSegs fn (scan fl r [] s)"

section \<open>parseMarkdown\<close>

subsection \<open>The expressions of the pipeline\<close>

definition rx_amp :: regex where \<comment> \<open>\<^verbatim>\<open>/&/g\<close>\<close>
  "rx_amp = Chr CHR ''&''"

definition rx_lt :: regex where \<comment> \<open>\<^verbatim>\<open>/</g\<close>\<close>
  "rx_lt = Chr CHR ''<''"

definition rx_gt :: regex where \<comment> \<open>\<^verbatim>\<open>/>/g\<close>\<close>
  "rx_gt = Chr CHR ''>''"

definition rx_fence :: regex where \<comment> \<open>\<^verbatim>\<open>/```(\w*)\n([\s\S]*?)```/g\<close>\<close>
  "rx_fence = seq (lit ''```'' @
     [Group 1 (Star (Class False [CWord])), Chr CHR 0x0A,
      Group 2 (LazyStar (Class False [CSpace, CNonSpace]))] @ lit ''```'')"

definition rx_inlineCode :: regex where \<comment> \<open>\<^verbatim>\<open>/`([^`]+)`/g\<close>\<close>
  "rx_inlineCode = seq [Chr CHR ''`'', Group 1 (oneOrMore (Class True [CChar CHR ''`''])), Chr CHR ''`'']"

definition rx_header :: "nat \<Rightarrow> regex" where \<comment> \<open>\<^verbatim>\<open>/^#{n}\s+(.+)$/gm\<close>, the hashes written out\<close>
  "rx_header n = seq ([Bol] @ lit (replicate n CHR ''#'') @
     [oneOrMore (Class False [CSpace]), Group 1 (oneOrMore Dot), Eol])"

definition rx_boldStar :: regex where \<comment> \<open>\<^verbatim>\<open>/\*\*([^*]+)\*\*/g\<close>\<close>
  "rx_boldStar = seq (lit ''**'' @ [Group 1 (oneOrMore (Class True [CChar CHR ''*'']))] @ lit ''**'')"

definition rx_boldUnder :: regex where \<comment> \<open>\<^verbatim>\<open>/__([^_]+)__/g\<close>\<close>
  "rx_boldUnder = seq (lit ''__'' @ [Group 1 (oneOrMore (Class True [CChar CHR ''_'']))] @ lit ''__'')"

definition rx_italicStar :: regex where \<comment> \<open>\<^verbatim>\<open>/\*([^*]+)\*/g\<close>\<close>
  "rx_italicStar = seq [Chr CHR ''*'', Group 1 (oneOrMore (Class True [CChar CHR ''*''])), Chr CHR ''*'']"

definition rx_italicUnder :: regex where \<comment> \<open>\<^verbatim>\<open>/_([^_]+)_/g\<close>\<close>
  "rx_italicUnder = seq [Chr CHR ''_'', Group 1 (oneOrMore (Class True [CChar CHR ''_''])), Chr CHR ''_'']"

definition rx_strike :: regex where \<comment> \<open>\<^verbatim>\<open>/~~([^~]+)~~/g\<close>\<close>
  "rx_strike = seq (lit ''~~'' @ [Group 1 (oneOrMore (Class True [CChar CHR ''~'']))] @ lit ''~~'')"

definition rx_link :: regex where \<comment> \<open>\<^verbatim>\<open>/\[([^\]]+)\]\(([^)]+)\)/g\<close>\<close>
  "rx_link = seq [Chr CHR ''['', Group 1 (oneOrMore (Class True [CChar CHR '']''])),
     Chr CHR '']'', Chr CHR ''('', Group 2 (oneOrMore (Class True [CChar CHR '')''])), Chr CHR '')'']"

definition rx_image :: regex where \<comment> \<open>\<^verbatim>\<open>/!\[([^\]]*)\]\(([^)]+)\)/g\<close>\<close>
  "rx_image = seq [Chr CHR ''!'', Chr CHR ''['', Group 1 (Star (Class True [CChar CHR '']''])),
     Chr CHR '']'', Chr CHR ''('', Group 2 (oneOrMore (Class True [CChar CHR '')''])), Chr CHR '')'']"

definition rx_blockquote :: regex where \<comment> \<open>\<^verbatim>\<open>/^>\s+(.+)$/gm\<close>\<close>
  "rx_blockquote = seq [Bol, Chr CHR ''>'', oneOrMore (Class False [CSpace]), Group 1 (oneOrMore Dot), Eol]"

definition rx_hr :: regex where \<comment> \<open>\<^verbatim>\<open>/^[-*_]{3,}$/gm\<close>\<close>
  "rx_hr = seq [Bol, atLeastN 3 (Class False [CChar CHR ''-'', CChar CHR ''*'', CChar CHR ''_'']), Eol]"

definition rx_bullet :: regex where \<comment> \<open>\<^verbatim>\<open>/^[\-\*]\s+(.+)$/gm\<close>\<close>
  "rx_bullet = seq [Bol, Class False [CChar CHR ''-'', CChar CHR ''*''],
     oneOrMore (Class False [CSpace]), Group 1 (oneOrMore Dot), Eol]"

definition rx_liRun :: regex where \<comment> \<open>\<^verbatim>\<open>/(<li>.*<\/li>\n?)+/g\<close>\<close>
  "rx_liRun = oneOrMore (Group 1 (seq (lit ''<li>'' @ [Star Dot] @ lit ''</li>'' @ [optional (Chr CHR 0x0A)])))"

definition rx_ordered :: regex where \<comment> \<open>\<^verbatim>\<open>/^\d+\.\s+(.+)$/gm\<close>\<close>
  "rx_ordered = seq [Bol, oneOrMore (Class False [CDigit]), Chr CHR ''.'',
     oneOrMore (Class False [CSpace]), Group 1 (oneOrMore Dot), Eol]"

definition rx_taskOpen :: regex where \<comment> \<open>\<^verbatim>\<open>/<li>\[\s\]\s+(.+)<\/li>/g\<close>\<close>
  "rx_taskOpen = seq (lit ''<li>['' @ [Class False [CSpace], Chr CHR '']'',
     oneOrMore (Class False [CSpace]), Group 1 (oneOrMore Dot)] @ lit ''</li>'')"

definition rx_taskDone :: regex where \<comment> \<open>\<^verbatim>\<open>/<li>\[x\]\s+(.+)<\/li>/gi\<close>\<close>
  "rx_taskDone = seq (lit ''<li>[x]'' @
     [oneOrMore (Class False [CSpace]), Group 1 (oneOrMore Dot)] @ lit ''</li>'')"

definition rx_blankLine :: regex where \<comment> \<open>\<^verbatim>\<open>/\n\n/g\<close>\<close>
  "rx_blankLine = seq [Chr CHR 0x0A, Chr CHR 0x0A]"

definition rx_newline :: regex where \<comment> \<open>\<^verbatim>\<open>/\n/g\<close>\<close>
  "rx_newline = Chr CHR 0x0A"

definition rx_emptyP :: regex where \<comment> \<open>\<^verbatim>\<open>/<p><\/p>/g\<close>\<close>
  "rx_emptyP = seq (lit ''<p></p>'')"

definition rx_pHeadingOpen :: regex where \<comment> \<open>\<^verbatim>\<open>/<p>(<h[1-6]>)/g\<close>\<close>
  "rx_pHeadingOpen = seq (lit ''<p>'' @
     [Group 1 (seq (lit ''<h'' @ [Class False [CRange CHR ''1'' CHR ''6''], Chr CHR ''>'']))])"

definition rx_pHeadingClose :: regex where \<comment> \<open>\<^verbatim>\<open>/(<\/h[1-6]>)<\/p>/g\<close>\<close>
  "rx_pHeadingClose = seq ([Group 1 (seq (lit ''</h'' @ [Class False [CRange CHR ''1'' CHR ''6''], Chr CHR ''>'']))]
     @ lit ''</p>'')"

definition rx_pBefore :: "string \<Rightarrow> regex" where \<comment> \<open>\<^verbatim>\<open>/<p>(T)/g\<close> for a literal \<^verbatim>\<open>T\<close>\<close>
  "rx_pBefore t = seq (lit ''<p>'' @ [Group 1 (seq (lit t))])"

definition rx_pAfter :: "string \<Rightarrow> regex" where \<comment> \<open>\<^verbatim>\<open>/(T)<\/p>/g\<close> for a literal \<^verbatim>\<open>T\<close>\<close>
  "rx_pAfter t = seq ([Group 1 (seq (lit t))] @ lit ''</p>'')"


subsection \<open>The stages, in source order\<close>

definition escapeHtml :: "string \<Rightarrow> string" where
  "escapeHtml html =
     replaceRx flags_g rx_gt [PLit ''&gt;'']
       (replaceRx flags_g rx_lt [PLit ''&lt;'']
         (replaceRx flags_g rx_amp [PLit ''&amp;''] html))"

text \<open>
  The replacer of the fence rule reads its two groups: \<^verbatim>\<open>lang\<close> goes into the template
  literal as it is, \<^verbatim>\<open>code.trim()\<close> is a method call, a TypeError on an undefined group.
\<close>

definition codeBlockReplacer :: "string \<Rightarrow> captures \<Rightarrow> error + string" where
  \<open>codeBlockReplacer mt k =
     (case k 2 of
        None \<Rightarrow> Inl TypeError
      | Some code \<Rightarrow>
          Inr (''<pre class="code-block" data-lang="''
                @ (case k 1 of None \<Rightarrow> ''undefined'' | Some lang \<Rightarrow> lang)
                @ ''"><code>'' @ trim code @ ''</code></pre>''))\<close>

definition codeBlocks :: "string \<Rightarrow> error + string" where
  "codeBlocks html = replaceRxFn flags_g rx_fence codeBlockReplacer html"

definition inlineCode :: "string \<Rightarrow> string" where
  \<open>inlineCode html =
     replaceRx flags_g rx_inlineCode [PLit ''<code class="inline-code">'', PGroup 1, PLit ''</code>''] html\<close>

definition header :: "nat \<Rightarrow> string \<Rightarrow> string \<Rightarrow> string" where
  "header n tag html =
     replaceRx flags_gm (rx_header n) [PLit (''<'' @ tag @ ''>''), PGroup 1, PLit (''</'' @ tag @ ''>'')] html"

definition headers :: "string \<Rightarrow> string" where
  "headers html =
     header 1 ''h1'' (header 2 ''h2'' (header 3 ''h3''
       (header 4 ''h4'' (header 5 ''h5'' (header 6 ''h6'' html)))))"

definition bold :: "string \<Rightarrow> string" where
  "bold html =
     replaceRx flags_g rx_boldUnder [PLit ''<strong>'', PGroup 1, PLit ''</strong>'']
       (replaceRx flags_g rx_boldStar [PLit ''<strong>'', PGroup 1, PLit ''</strong>''] html)"

definition italic :: "string \<Rightarrow> string" where
  "italic html =
     replaceRx flags_g rx_italicUnder [PLit ''<em>'', PGroup 1, PLit ''</em>'']
       (replaceRx flags_g rx_italicStar [PLit ''<em>'', PGroup 1, PLit ''</em>''] html)"

definition strikethrough :: "string \<Rightarrow> string" where
  "strikethrough html = replaceRx flags_g rx_strike [PLit ''<del>'', PGroup 1, PLit ''</del>''] html"

definition links :: "string \<Rightarrow> string" where
  \<open>links html =
     replaceRx flags_g rx_link
       [PLit ''<a href="'', PGroup 2, PLit ''" target="_blank" rel="noopener noreferrer">'',
        PGroup 1, PLit ''</a>''] html\<close>

definition images :: "string \<Rightarrow> string" where
  \<open>images html =
     replaceRx flags_g rx_image
       [PLit ''<img src="'', PGroup 2, PLit ''" alt="'', PGroup 1,
        PLit ''" class="markdown-image" />''] html\<close>

definition blockquotes :: "string \<Rightarrow> string" where
  "blockquotes html =
     replaceRx flags_gm rx_blockquote [PLit ''<blockquote>'', PGroup 1, PLit ''</blockquote>''] html"

definition horizontalRules :: "string \<Rightarrow> string" where
  "horizontalRules html = replaceRx flags_gm rx_hr [PLit ''<hr />''] html"

definition unorderedLists :: "string \<Rightarrow> string" where
  "unorderedLists html =
     replaceRx flags_g rx_liRun [PLit ''<ul>'', PWhole, PLit ''</ul>'']
       (replaceRx flags_gm rx_bullet [PLit ''<li>'', PGroup 1, PLit ''</li>''] html)"

definition orderedLists :: "string \<Rightarrow> string" where
  "orderedLists html = replaceRx flags_gm rx_ordered [PLit ''<li>'', PGroup 1, PLit ''</li>''] html"

definition taskLists :: "string \<Rightarrow> string" where
  \<open>taskLists html =
     replaceRx flags_gi rx_taskDone
       [PLit ''<li class="task-item"><input type="checkbox" checked disabled /> '', PGroup 1, PLit ''</li>'']
       (replaceRx flags_g rx_taskOpen
         [PLit ''<li class="task-item"><input type="checkbox" disabled /> '', PGroup 1, PLit ''</li>'']
         html)\<close>

definition lineBreaks :: "string \<Rightarrow> string" where
  "lineBreaks html =
     replaceRx flags_g rx_newline [PLit ''<br />'']
       (replaceRx flags_g rx_blankLine [PLit ''</p><p>''] html)"

definition wrapParagraph :: "string \<Rightarrow> string" where
  "wrapParagraph html = (if \<not> startsWith html ''<'' then ''<p>'' @ html @ ''</p>'' else html)"

definition cleanUp :: "string \<Rightarrow> string" where
  "cleanUp html =
     replaceRx flags_g (rx_pBefore ''<hr />'') [PGroup 1]
      (replaceRx flags_g (rx_pAfter ''</pre>'') [PGroup 1]
       (replaceRx flags_g (rx_pBefore ''<pre'') [PGroup 1]
        (replaceRx flags_g (rx_pAfter ''</blockquote>'') [PGroup 1]
         (replaceRx flags_g (rx_pBefore ''<blockquote>'') [PGroup 1]
          (replaceRx flags_g (rx_pAfter ''</ul>'') [PGroup 1]
           (replaceRx flags_g (rx_pBefore ''<ul>'') [PGroup 1]
            (replaceRx flags_g rx_pHeadingClose [PGroup 1]
             (replaceRx flags_g rx_pHeadingOpen [PGroup 1]
              (replaceRx flags_g rx_emptyP [] html)))))))))"

definition markup :: "string \<Rightarrow> string" where
  \<comment> \<open>the stages after the fence rule, lines 28 to 92 of the source\<close>
  "markup html =
     cleanUp (wrapParagraph (lineBreaks (taskLists (orderedLists (unorderedLists
       (horizontalRules (blockquotes (images (links (strikethrough (italic (bold
         (headers (inlineCode html))))))))))))))"

definition parseMarkdown :: "string \<Rightarrow> bool \<Rightarrow> error + string" where
  "parseMarkdown text allowHtml =
     (let html = text;
          html = (if \<not> allowHtml then escapeHtml html else html)
      in (case codeBlocks html of
            Inl e \<Rightarrow> Inl e
          | Inr html \<Rightarrow> Inr (markup html)))"


section \<open>The backtracking stack of the host\<close>

text \<open>
  The language sets no limit to a match, the hosts that run it do: the matcher keeps its
  pending alternatives on a stack of bounded size and ends the call with a RangeError when
  the stack is full. A quantifier over a single character is run as a counted loop and
  leaves nothing on the stack; a quantified group leaves a record for each repetition, to
  restore its capture, until the match is decided. In \<^verbatim>\<open>parseMarkdown\<close> the one quantified
  group is that of line 64, repeated once for each line of a run of list items. The number
  of repetitions the stack holds is a property of the host and a parameter here.
\<close>

text \<open>
  The results of a greedy star as the matcher gives them, each with the number of
  repetitions made to reach it.
\<close>

function starRuns :: "flags \<Rightarrow> regex \<Rightarrow> mstate \<Rightarrow> (mstate \<times> nat) list" where
  "starRuns fl r st =
     concat (map (\<lambda>st'. map (\<lambda>(s, n). (s, Suc n)) (starRuns fl r st'))
                 (filter (\<lambda>st'. remaining st' < remaining st) (m fl r st))) @ [(st, 0)]"
  by pat_completeness auto
termination
  by (relation "measure (\<lambda>(fl, r, st). remaining st)") auto



definition rx_liItem :: regex where \<comment> \<open>the group of line 64, \<^verbatim>\<open>(<li>.*<\/li>\n?)\<close>\<close>
  "rx_liItem = Group 1 (seq (lit ''<li>'' @ [Star Dot] @ lit ''</li>'' @ [optional (Chr CHR 0x0A)]))"

definition listInput :: "string \<Rightarrow> string" where
  \<comment> \<open>the working string that reaches line 64: the stages of lines 28 to 63\<close>
  "listInput html =
     replaceRx flags_gm rx_bullet [PLit ''<li>'', PGroup 1, PLit ''</li>'']
       (horizontalRules (blockquotes (images (links (strikethrough (italic (bold
         (headers (inlineCode html)))))))))"



section \<open>highlightCode\<close>

text \<open>
  The keyword table is an object literal with three own properties. A property read on it
  that misses the own properties goes on to \<^verbatim>\<open>Object.prototype\<close>, whose properties are
  functions (and the prototype object itself under \<^verbatim>\<open>__proto__\<close>); only a name found in
  neither place reads as \<^verbatim>\<open>undefined\<close>.
\<close>

datatype jsval = Arr "string list" | Inherited | Undefined

definition objectPrototypeKeys :: "string list" where
  "objectPrototypeKeys =
     [''constructor'', ''__defineGetter__'', ''__defineSetter__'', ''hasOwnProperty'',
      ''__lookupGetter__'', ''__lookupSetter__'', ''isPrototypeOf'', ''propertyIsEnumerable'',
      ''toString'', ''valueOf'', ''__proto__'', ''toLocaleString'']"

definition keywordsTable :: "string \<Rightarrow> jsval" where
  "keywordsTable key =
     (if key = ''javascript'' then
        Arr [''const'', ''let'', ''var'', ''function'', ''return'', ''if'', ''else'', ''for'',
             ''while'', ''class'', ''import'', ''export'', ''from'', ''async'', ''await'',
             ''try'', ''catch'', ''throw'', ''new'', ''this'']
      else if key = ''typescript'' then
        Arr [''const'', ''let'', ''var'', ''function'', ''return'', ''if'', ''else'', ''for'',
             ''while'', ''class'', ''import'', ''export'', ''from'', ''async'', ''await'',
             ''try'', ''catch'', ''throw'', ''new'', ''this'', ''interface'', ''type'', ''enum'',
             ''implements'', ''extends'']
      else if key = ''python'' then
        Arr [''def'', ''class'', ''return'', ''if'', ''elif'', ''else'', ''for'', ''while'',
             ''import'', ''from'', ''try'', ''except'', ''raise'', ''with'', ''as'', ''lambda'',
             ''yield'', ''async'', ''await'']
      else if key \<in> set objectPrototypeKeys then Inherited
      else Undefined)"

definition rx_string :: regex where \<comment> \<open>\<^verbatim>\<open>/(["'`])(?:(?!\1)[^\\]|\\.)*\1/g\<close>\<close>
  \<open>rx_string =
     seq [Group 1 (Class False [CChar CHR ''"'', CChar CHR 0x27, CChar CHR ''`'']),
          Star (Alt (Seq (NegLook (Backref 1)) (Class True [CChar CHR 0x5C]))
                    (Seq (Chr CHR 0x5C) Dot)),
          Backref 1]\<close>

definition rx_lineComment :: regex where \<comment> \<open>\<^verbatim>\<open>/(\/\/.*$|#.*$)/gm\<close>\<close>
  "rx_lineComment =
     Group 1 (Alt (seq [Chr CHR ''/'', Chr CHR ''/'', Star Dot, Eol])
                  (seq [Chr CHR ''#'', Star Dot, Eol]))"

definition rx_blockComment :: regex where \<comment> \<open>\<^verbatim>\<open>/(\/\*[\s\S]*?\*\/)/g\<close>\<close>
  "rx_blockComment =
     Group 1 (seq [Chr CHR ''/'', Chr CHR ''*'', LazyStar (Class False [CSpace, CNonSpace]),
                   Chr CHR ''*'', Chr CHR ''/''])"

definition rx_keyword :: "string \<Rightarrow> regex" where
  \<comment> \<open>\<^verbatim>\<open>new RegExp(`\\b(${keyword})\\b`, 'g')\<close>; every keyword of the table is letters only\<close>
  "rx_keyword keyword = seq [WordB, Group 1 (seq (lit keyword)), WordB]"

definition rx_number :: regex where \<comment> \<open>\<^verbatim>\<open>/\b(\d+\.?\d*)\b/g\<close>\<close>
  "rx_number =
     seq [WordB,
          Group 1 (seq [oneOrMore (Class False [CDigit]), optional (Chr CHR ''.''),
                        Star (Class False [CDigit])]),
          WordB]"

definition highlightKeyword :: "string \<Rightarrow> string \<Rightarrow> string" where
  \<open>highlightKeyword highlighted keyword =
     replaceRx flags_g (rx_keyword keyword)
       [PLit ''<span class="keyword">'', PGroup 1, PLit ''</span>''] highlighted\<close>

definition highlightCode :: "string \<Rightarrow> string \<Rightarrow> error + string" where
  \<open>highlightCode code language =
     (let langKeywords = (case keywordsTable (toLowerCase language) of Undefined \<Rightarrow> Arr [] | v \<Rightarrow> v);
          highlighted = code;
          highlighted = replaceRx flags_g rx_string
                          [PLit ''<span class="string">'', PWhole, PLit ''</span>''] highlighted;
          highlighted = replaceRx flags_gm rx_lineComment
                          [PLit ''<span class="comment">'', PGroup 1, PLit ''</span>''] highlighted;
          highlighted = replaceRx flags_g rx_blockComment
                          [PLit ''<span class="comment">'', PGroup 1, PLit ''</span>''] highlighted
      in (case langKeywords of
            Arr ks \<Rightarrow>
              Inr (replaceRx flags_g rx_number
                     [PLit ''<span class="number">'', PGroup 1, PLit ''</span>'']
                     (foldl highlightKeyword highlighted ks))
          | _ \<Rightarrow> Inl TypeError))\<close>

section \<open>Notions used in the proofs\<close>

text \<open>
  None of the following is part of the program. They name what the proofs talk about: how
  a state reached by the matcher relates to the state it started from, what it means for a
  piece of replacement text to keep a word from appearing across its ends, and the
  invariants that the paragraph tags obey along the pipeline.
\<close>

definition ctx :: "mstate \<Rightarrow> mstate \<Rightarrow> bool" where
  "ctx st st' = (\<exists>w. fst (snd st) = w @ fst (snd st') \<and> fst st' = rev w @ fst st)"

definition sealed :: "string \<Rightarrow> string \<Rightarrow> bool" where
  "sealed w R = (\<forall>A B. \<not> sublist w A \<longrightarrow> \<not> sublist w B \<longrightarrow> \<not> sublist w (A @ R @ B))"

definition headSealed :: "string \<Rightarrow> string \<Rightarrow> bool" where
  "headSealed w R = (\<forall>A B. \<not> sublist w A \<longrightarrow> \<not> sublist w (R @ B) \<longrightarrow> \<not> sublist w (A @ R @ B))"

definition tailSealed :: "string \<Rightarrow> string \<Rightarrow> bool" where
  "tailSealed w R = (\<forall>A B. \<not> sublist w (A @ R) \<longrightarrow> \<not> sublist w B \<longrightarrow> \<not> sublist w (A @ R @ B))"

definition headCheck :: "string \<Rightarrow> string \<Rightarrow> bool" where
  "headCheck w R = list_all (\<lambda>y. y = [] \<or> y = w \<or> (\<not> prefix y R \<and> \<not> prefix R y)) (suffixes w)"

definition tailCheck :: "string \<Rightarrow> string \<Rightarrow> bool" where
  "tailCheck w R = list_all (\<lambda>x. x = [] \<or> x = w \<or> (\<not> suffix x R \<and> \<not> suffix R x)) (prefixes w)"

definition litOK :: "string \<Rightarrow> string \<Rightarrow> bool" where
  "litOK w a = (headCheck w a \<and> tailCheck w a \<and> \<not> sublist w a)"

fun tmplOK :: "string \<Rightarrow> piece list \<Rightarrow> bool" where
  "tmplOK w [PLit a] = litOK w a"
| "tmplOK w (PLit a # PLit b # rest) = (litOK w a \<and> tmplOK w (PLit b # rest))"
| "tmplOK w (PLit a # PGroup n # rest) = (litOK w a \<and> tmplOK w rest)"
| "tmplOK w (PLit a # PWhole # rest) = (litOK w a \<and> tmplOK w rest)"
| "tmplOK w _ = False"

definition capsFree :: "string \<Rightarrow> captures \<Rightarrow> bool" where
  "capsFree w k = (\<forall>n g. k n = Some g \<longrightarrow> \<not> sublist w g)"

definition segOut :: "(string \<Rightarrow> captures \<Rightarrow> string) \<Rightarrow> seg \<Rightarrow> string" where
  "segOut rep sg = (case sg of Unmatched c \<Rightarrow> [c] | Matched mt k \<Rightarrow> rep mt k)"

fun setsGroup :: "nat \<Rightarrow> regex \<Rightarrow> bool" where
  "setsGroup n (Group i r) = (n = i \<or> setsGroup n r)"
| "setsGroup n (Seq a b) = (setsGroup n a \<or> setsGroup n b)"
| "setsGroup n (Alt a b) = (setsGroup n a \<and> setsGroup n b)"
| "setsGroup n _ = False"

definition isMatch :: "flags \<Rightarrow> regex \<Rightarrow> string \<Rightarrow> captures \<Rightarrow> bool" where
  "isMatch fl r mt k = (\<exists>b b' B0. (b', B0, k) \<in> set (m fl r (b, mt @ B0, Map.empty)))"

definition segMatch :: "flags \<Rightarrow> regex \<Rightarrow> seg \<Rightarrow> bool" where
  "segMatch fl r sg = (case sg of Unmatched c \<Rightarrow> True | Matched mt k \<Rightarrow> isMatch fl r mt k)"

definition fenceText :: "string \<Rightarrow> captures \<Rightarrow> string" where
  \<open>fenceText mt k =
     ''<pre class="code-block" data-lang="''
       @ (case k 1 of None \<Rightarrow> ''undefined'' | Some lang \<Rightarrow> lang)
       @ ''"><code>'' @ (case k 2 of None \<Rightarrow> [] | Some code \<Rightarrow> trim code) @ ''</code></pre>''\<close>

definition fenceTemplate :: "piece list" where
  \<open>fenceTemplate = [PLit ''<pre class="code-block" data-lang="'', PGroup 1, PLit ''"><code>'',
                    PGroup 2, PLit ''</code></pre>'']\<close>

definition inlineTemplates :: "piece list list" where
  \<open>inlineTemplates =
    [[PLit ''<code class="inline-code">'', PGroup 1, PLit ''</code>''],
     [PLit ''<h6>'', PGroup 1, PLit ''</h6>''],
     [PLit ''<h5>'', PGroup 1, PLit ''</h5>''],
     [PLit ''<h4>'', PGroup 1, PLit ''</h4>''],
     [PLit ''<h3>'', PGroup 1, PLit ''</h3>''],
     [PLit ''<h2>'', PGroup 1, PLit ''</h2>''],
     [PLit ''<h1>'', PGroup 1, PLit ''</h1>''],
     [PLit ''<strong>'', PGroup 1, PLit ''</strong>''],
     [PLit ''<em>'', PGroup 1, PLit ''</em>''],
     [PLit ''<del>'', PGroup 1, PLit ''</del>''],
     [PLit ''<a href="'', PGroup 2, PLit ''" target="_blank" rel="noopener noreferrer">'',
        PGroup 1, PLit ''</a>''],
     [PLit ''<img src="'', PGroup 2, PLit ''" alt="'', PGroup 1,
        PLit ''" class="markdown-image" />''],
     [PLit ''<blockquote>'', PGroup 1, PLit ''</blockquote>''],
     [PLit ''<hr />''],
     [PLit ''<li>'', PGroup 1, PLit ''</li>''],
     [PLit ''<ul>'', PWhole, PLit ''</ul>''],
     [PLit ''<li class="task-item"><input type="checkbox" disabled /> '', PGroup 1, PLit ''</li>''],
     [PLit ''<li class="task-item"><input type="checkbox" checked disabled /> '', PGroup 1, PLit ''</li>'']]\<close>

definition inlineStages :: "string \<Rightarrow> string" where
  "inlineStages html =
     taskLists (orderedLists (unorderedLists (horizontalRules (blockquotes (images (links
       (strikethrough (italic (bold (headers (inlineCode html)))))))))))"

definition gfree :: "string \<Rightarrow> bool" where
  "gfree s = ((\<forall>c. c \<noteq> CHR ''>'' \<longrightarrow> \<not> sublist (c # ''<p>'') s) \<and> \<not> sublist ''<p><p>'' s)"

definition delOK :: "string \<Rightarrow> bool" where
  "delOK w = list_all (\<lambda>x. x = [] \<or> x = w \<or> last x \<noteq> CHR ''>'' \<or> sublist w (x @ ''<p></p>''))
               (prefixes w)"

definition wrapOK :: "string \<Rightarrow> bool" where
  "wrapOK w = (tailCheck w ''<p>'' \<and> \<not> sublist w ''<p>'' \<and> headCheck w ''</p>'' \<and> \<not> sublist w ''</p>'')"

definition precP :: "string \<Rightarrow> bool" where
  "precP s = (\<forall>a c. s = a @ ''<p>'' @ c \<longrightarrow> suffix ''</p>'' a)"

definition stripOK :: "string \<Rightarrow> bool" where
  "stripOK w =
     (headCheck w ''<ul>'' \<and> headCheck w ''<blockquote>'' \<and> headCheck w ''<pre'' \<and>
      headCheck w ''<hr />'' \<and> (\<forall>d. headCheck w (''<h'' @ [d] @ ''>'')) \<and>
      tailCheck w ''</ul>'' \<and> tailCheck w ''</blockquote>'' \<and> tailCheck w ''</pre>'' \<and>
      (\<forall>d. tailCheck w (''</h'' @ [d] @ ''>'')))"

definition strips :: "string \<Rightarrow> string" where
  "strips html =
     replaceRx flags_g (rx_pBefore ''<hr />'') [PGroup 1]
      (replaceRx flags_g (rx_pAfter ''</pre>'') [PGroup 1]
       (replaceRx flags_g (rx_pBefore ''<pre'') [PGroup 1]
        (replaceRx flags_g (rx_pAfter ''</blockquote>'') [PGroup 1]
         (replaceRx flags_g (rx_pBefore ''<blockquote>'') [PGroup 1]
          (replaceRx flags_g (rx_pAfter ''</ul>'') [PGroup 1]
           (replaceRx flags_g (rx_pBefore ''<ul>'') [PGroup 1]
            (replaceRx flags_g rx_pHeadingClose [PGroup 1]
             (replaceRx flags_g rx_pHeadingOpen [PGroup 1] html))))))))"

definition wordOK :: "string \<Rightarrow> bool" where
  "wordOK w =
     (CHR ''<'' \<in> set w \<and> tmplOK w fenceTemplate \<and> list_all (tmplOK w) inlineTemplates \<and>
      tmplOK w [PLit ''</p><p>''] \<and> tmplOK w [PLit ''<br />''] \<and> wrapOK w \<and> delOK w \<and> stripOK w)"


definition needsFirst :: "flags \<Rightarrow> regex \<Rightarrow> char set \<Rightarrow> bool" where
  "needsFirst fl r F = (\<forall>b ys k. m fl r (b, ys, k) \<noteq> [] \<longrightarrow> ys \<noteq> [] \<and> hd ys \<in> F)"



section \<open>Properties of the matcher and of the replace loop\<close>

declare m.simps(7,8) [simp del]

lemma ctx_refl: "ctx st st" by (simp add: ctx_def)

lemma ctx_trans: "ctx a b \<Longrightarrow> ctx b c \<Longrightarrow> ctx a c"
  by (auto simp: ctx_def)

lemma ctx_step: "ctx (b, x # xs, k) (x # b, xs, k')" by (simp add: ctx_def)

lemma m_ctx: "st' \<in> set (m fl r st) \<Longrightarrow> ctx st st'"
proof (induction fl r st arbitrary: st' rule: m.induct)
  case (1 fl st) then show ?case by (simp add: ctx_refl)
next
  case (2 fl c b xs k) then show ?case by (auto split: list.splits if_splits simp: ctx_step)
next
  case (3 fl b xs k) then show ?case by (auto split: list.splits if_splits simp: ctx_step)
next
  case (4 fl neg items b xs k) then show ?case by (auto split: list.splits if_splits simp: ctx_step)
next
  case (5 fl r1 r2 st)
  from "5.prems" obtain st1 where a: "st1 \<in> set (m fl r1 st)" and b: "st' \<in> set (m fl r2 st1)" by auto
  show ?case using ctx_trans[OF "5.IH"(1)[OF a] "5.IH"(2)[OF a b]] .
next
  case (6 fl r1 r2 st)
  from "6.prems" have "st' \<in> set (m fl r1 st) \<or> st' \<in> set (m fl r2 st)" by simp
  then show ?case using "6.IH" by blast
next
  case (7 fl r st)
  show ?case
  proof (cases "st' = st")
    case True then show ?thesis by (simp add: ctx_refl)
  next
    case False
    have "m fl (Star r) st = concat (map (m fl (Star r))
        (filter (\<lambda>st'. remaining st' < remaining st) (m fl r st))) @ [st]" by (rule m.simps(7))
    with False "7.prems" obtain st1 where a: "st1 \<in> set (filter (\<lambda>st'. remaining st' < remaining st) (m fl r st))"
      and b: "st' \<in> set (m fl (Star r) st1)" by auto
    from a have a': "st1 \<in> set (m fl r st)" by simp
    show ?thesis using ctx_trans[OF "7.IH"(1)[OF a'] "7.IH"(2)[OF a b]] .
  qed
next
  case (8 fl r st)
  show ?case
  proof (cases "st' = st")
    case True then show ?thesis by (simp add: ctx_refl)
  next
    case False
    have "m fl (LazyStar r) st = st # concat (map (m fl (LazyStar r))
        (filter (\<lambda>st'. remaining st' < remaining st) (m fl r st)))" by (rule m.simps(8))
    with False "8.prems" obtain st1 where a: "st1 \<in> set (filter (\<lambda>st'. remaining st' < remaining st) (m fl r st))"
      and b: "st' \<in> set (m fl (LazyStar r) st1)" by auto
    from a have a': "st1 \<in> set (m fl r st)" by simp
    show ?thesis using ctx_trans[OF "8.IH"(1)[OF a'] "8.IH"(2)[OF a b]] .
  qed
next
  case (9 fl n r b xs k)
  from "9.prems" obtain st1 where a: "st1 \<in> set (m fl r (b, xs, k))"
    and b: "fst st' = fst st1" "fst (snd st') = fst (snd st1)"
    by (auto simp: case_prod_beta)
  from "9.IH"[OF a] b show ?case by (simp add: ctx_def)
next
  case (10 fl b xs k) then show ?case by (simp add: ctx_refl split: if_splits)
next
  case (11 fl b xs k) then show ?case by (simp add: ctx_refl split: if_splits)
next
  case (12 fl b xs k) then show ?case by (simp add: ctx_refl split: if_splits)
next
  case (13 fl n b xs k)
  show ?case
  proof (cases "k n")
    case None with "13.prems" show ?thesis by (simp add: ctx_refl)
  next
    case (Some w)
    with "13.prems" have "st' = (rev (take (length w) xs) @ b, drop (length w) xs, k)"
      by (simp split: if_splits)
    then show ?thesis unfolding ctx_def
      by (intro exI[of _ "take (length w) xs"]) simp
  qed
next
  case (14 fl r st) then show ?case by (simp add: ctx_refl split: if_splits)
qed

lemma headCheck_sound: "headCheck w R \<Longrightarrow> headSealed w R"
  unfolding headSealed_def
proof (intro allI impI notI)
  fix A B
  assume hc: "headCheck w R" and a: "\<not> sublist w A" and rb: "\<not> sublist w (R @ B)"
    and s: "sublist w (A @ R @ B)"
  from s a rb obtain x1 x2 where w: "w = x1 @ x2" and s1: "suffix x1 A" and p2: "prefix x2 (R @ B)"
    by (auto simp: sublist_append)
  from w s1 a have x2ne: "x2 \<noteq> []" by auto
  from w p2 rb have x1ne: "x1 \<noteq> []" by auto
  from w have "x2 \<in> set (suffixes w)" by (simp add: in_set_suffixes suffix_def)
  moreover from w x1ne have "x2 \<noteq> w" by simp
  ultimately have "\<not> prefix x2 R \<and> \<not> prefix R x2"
    using hc x2ne by (auto simp: headCheck_def list_all_iff)
  moreover from p2 have "prefix x2 R \<or> prefix R x2"
    by (auto simp: prefix_append)
  ultimately show False by simp
qed

lemma tailCheck_sound: "tailCheck w R \<Longrightarrow> tailSealed w R"
  unfolding tailSealed_def
proof (intro allI impI notI)
  fix A B
  assume hc: "tailCheck w R" and a: "\<not> sublist w (A @ R)" and rb: "\<not> sublist w B"
    and s: "sublist w (A @ R @ B)"
  from s have "sublist w ((A @ R) @ B)" by simp
  with a rb obtain x1 x2 where w: "w = x1 @ x2" and s1: "suffix x1 (A @ R)" and p2: "prefix x2 B"
    unfolding sublist_append by blast
  from w s1 a have x2ne: "x2 \<noteq> []" by auto
  from w p2 rb have x1ne: "x1 \<noteq> []" by auto
  from w have "x1 \<in> set (prefixes w)" by (simp add: in_set_prefixes)
  moreover from w x2ne have "x1 \<noteq> w" by simp
  ultimately have "\<not> suffix x1 R \<and> \<not> suffix R x1"
    using hc x1ne by (auto simp: tailCheck_def list_all_iff)
  moreover from s1 have "suffix x1 R \<or> suffix R x1"
    by (auto simp: suffix_append)
  ultimately show False by simp
qed

lemma litOK_sealed: "litOK w R \<Longrightarrow> sealed w R"
  unfolding sealed_def
proof (intro allI impI)
  fix A B
  assume ok: "litOK w R" and a: "\<not> sublist w A" and b: "\<not> sublist w B"
  from ok have h: "headSealed w R" and t: "tailSealed w R" and r: "\<not> sublist w R"
    by (simp_all add: litOK_def headCheck_sound tailCheck_sound)
  from t r b have "\<not> sublist w ([] @ R @ B)" unfolding tailSealed_def by (metis append_Nil)
  then have "\<not> sublist w (R @ B)" by simp
  with h a show "\<not> sublist w (A @ R @ B)" unfolding headSealed_def by blast
qed

lemma sealed_app3: "sealed w a \<Longrightarrow> \<not> sublist w g \<Longrightarrow> sealed w b \<Longrightarrow> sealed w (a @ g @ b)"
  unfolding sealed_def
proof (intro allI impI)
  fix A B
  assume sa: "\<forall>A B. \<not> sublist w A \<longrightarrow> \<not> sublist w B \<longrightarrow> \<not> sublist w (A @ a @ B)"
    and g: "\<not> sublist w g"
    and sb: "\<forall>A B. \<not> sublist w A \<longrightarrow> \<not> sublist w B \<longrightarrow> \<not> sublist w (A @ b @ B)"
    and a: "\<not> sublist w A" and b: "\<not> sublist w B"
  from sb g b have "\<not> sublist w (g @ b @ B)" by blast
  with sa a have "\<not> sublist w (A @ a @ (g @ b @ B))" by blast
  then show "\<not> sublist w (A @ (a @ g @ b) @ B)" by simp
qed

lemma sealed_free: "sealed w R \<Longrightarrow> \<not> sublist w [] \<Longrightarrow> \<not> sublist w R"
  unfolding sealed_def by (metis append_Nil append_Nil2)

lemma expandPiece_free:
  "\<not> sublist w [] \<Longrightarrow> \<not> sublist w mt \<Longrightarrow> capsFree w k \<Longrightarrow> (\<forall>a. p \<noteq> PLit a) \<Longrightarrow> \<not> sublist w (expandPiece mt k p)"
  by (cases p) (auto simp: capsFree_def split: option.splits)

lemma tmpl_sealed:
  "tmplOK w tmpl \<Longrightarrow> \<not> sublist w [] \<Longrightarrow> \<not> sublist w mt \<Longrightarrow> capsFree w k
     \<Longrightarrow> sealed w (getSubstitution tmpl mt k)"
proof (induction w tmpl rule: tmplOK.induct)
  case (1 w a)
  then show ?case by (simp add: getSubstitution_def litOK_sealed)
next
  case (2 w a b rest)
  then have "sealed w a" and "sealed w (getSubstitution (PLit b # rest) mt k)"
    by (simp_all add: litOK_sealed)
  from sealed_app3[OF this(1) _ this(2), of "[]"] "2.prems"(2)
  show ?case by (simp add: getSubstitution_def)
next
  case (3 w a v rest)
  then have "sealed w a" and "sealed w (getSubstitution rest mt k)"
    by (simp_all add: litOK_sealed)
  moreover from "3.prems" have "\<not> sublist w (expandPiece mt k (PGroup v))"
    by (intro expandPiece_free) simp_all
  ultimately show ?case using sealed_app3 by (simp add: getSubstitution_def)
next
  case (4 w a rest)
  then have "sealed w a" and "sealed w (getSubstitution rest mt k)"
    by (simp_all add: litOK_sealed)
  moreover from "4.prems" have "\<not> sublist w (expandPiece mt k PWhole)"
    by (intro expandPiece_free) simp_all
  ultimately show ?case using sealed_app3 by (simp add: getSubstitution_def)
qed simp_all

lemma ctx_remaining: "ctx st st' \<Longrightarrow> remaining st' \<le> remaining st"
  by (auto simp: ctx_def remaining_def)

lemma ctx_take:
  assumes "ctx (b, xs, k) st'"
  shows "xs = take (length xs - remaining st') xs @ fst (snd st')"
    and "fst st' = rev (take (length xs - remaining st') xs) @ b"
  using assms by (auto simp: ctx_def remaining_def)

lemma segText_segOut: "segText tmpl = segOut (getSubstitution tmpl)"
  by (rule ext) (simp add: segOut_def split: seg.splits)

lemma scan_ref:
  assumes step: "\<And>b b' mt B0 k B' A0.
      (b', B0, k) \<in> set (m fl r (b, mt @ B0, Map.empty)) \<Longrightarrow>
      (\<And>A. \<Phi> (A @ B0) \<Longrightarrow> \<Phi> (A @ B')) \<Longrightarrow>
      \<Phi> (A0 @ mt @ B0) \<Longrightarrow> \<Phi> (A0 @ rep mt k @ B')"
  shows "\<Phi> (A @ xs) \<Longrightarrow> \<Phi> (A @ concat (map (segOut rep) (scan fl r b xs)))"
proof (induction "length xs" arbitrary: xs b A rule: less_induct)
  case less
  show ?case
  proof (cases xs)
    case Nil
    show ?thesis
    proof (cases "m fl r (b, [], Map.empty)")
      case Nil
      with less.prems \<open>xs = []\<close> show ?thesis by simp
    next
      case (Cons st sts)
      then have mem: "st \<in> set (m fl r (b, [], Map.empty))" by simp
      from m_ctx[OF mem] have e: "fst (snd st) = []" by (auto simp: ctx_def)
      from mem e have "(fst st, [], snd (snd st)) \<in> set (m fl r (b, [] @ [], Map.empty))"
        by (metis append_Nil prod.collapse)
      from step[OF this, of "[]" A] less.prems \<open>xs = []\<close>
      have "\<Phi> (A @ rep [] (snd (snd st)))" by simp
      with Cons \<open>xs = []\<close> show ?thesis by (simp add: segOut_def)
    qed
  next
    case (Cons x xs')
    show ?thesis
    proof (cases "m fl r (b, x # xs', Map.empty)")
      case Nil
      from less.hyps[of xs' "A @ [x]" "x # b"] less.prems Nil Cons
      show ?thesis by (simp add: segOut_def)
    next
      case (Cons st sts)
      then have mem: "st \<in> set (m fl r (b, x # xs', Map.empty))" by simp
      note c = m_ctx[OF mem]
      let ?B0 = "fst (snd st)" and ?k = "snd (snd st)"
      let ?mt = "take (Suc (length xs') - remaining st) (x # xs')"
      from ctx_take(1)[OF c] have split: "x # xs' = ?mt @ ?B0" by simp
      have mem': "(fst st, ?B0, ?k) \<in> set (m fl r (b, ?mt @ ?B0, Map.empty))"
        using mem split by simp
      from less.prems \<open>xs = x # xs'\<close> split have pre: "\<Phi> (A @ ?mt @ ?B0)" by simp
      show ?thesis
      proof (cases "remaining st < Suc (length xs')")
        case True
        then have "length ?B0 < length xs" using \<open>xs = x # xs'\<close> by (simp add: remaining_def)
        from less.hyps[OF this]
        have ih: "\<And>A. \<Phi> (A @ ?B0) \<Longrightarrow> \<Phi> (A @ concat (map (segOut rep) (scan fl r (fst st) ?B0)))" .
        from step[OF mem' ih pre] Cons True \<open>xs = x # xs'\<close>
        show ?thesis by (simp add: segOut_def)
      next
        case False
        with ctx_remaining[OF c] have eq: "remaining st = Suc (length xs')" by (simp add: remaining_def)
        then have mt: "?mt = []" by simp
        with split have B0: "?B0 = x # xs'" by simp
        have ih: "\<And>A. \<Phi> (A @ ?B0) \<Longrightarrow> \<Phi> (A @ x # concat (map (segOut rep) (scan fl r (x # b) xs')))"
        proof -
          fix A assume "\<Phi> (A @ ?B0)"
          with B0 have "\<Phi> ((A @ [x]) @ xs')" by simp
          from less.hyps[OF _ this, of "x # b"] \<open>xs = x # xs'\<close>
          show "\<Phi> (A @ x # concat (map (segOut rep) (scan fl r (x # b) xs')))" by simp
        qed
        from step[OF mem' ih pre] Cons False mt \<open>xs = x # xs'\<close>
        show ?thesis by (simp add: segOut_def)
      qed
    qed
  qed
qed

lemma star_unfold:
  "st' \<in> set (m fl (Star r) st) \<Longrightarrow>
     st' = st \<or> (\<exists>st1 \<in> set (m fl r st). remaining st1 < remaining st \<and> st' \<in> set (m fl (Star r) st1))"
  by (subst (asm) m.simps(7)) auto

lemma lazystar_unfold:
  "st' \<in> set (m fl (LazyStar r) st) \<Longrightarrow>
     st' = st \<or> (\<exists>st1 \<in> set (m fl r st). remaining st1 < remaining st \<and> st' \<in> set (m fl (LazyStar r) st1))"
  by (subst (asm) m.simps(8)) auto

lemma group_unfold:
  "st' \<in> set (m fl (Group n r) (b, xs, k)) \<Longrightarrow>
     \<exists>st1 \<in> set (m fl r (b, xs, k)).
        st' = (fst st1, fst (snd st1), (snd (snd st1))(n \<mapsto> take (length xs - remaining st1) xs))"
  by (simp add: case_prod_beta remaining_def image_iff)

lemma sublist_trans': "sublist a b \<Longrightarrow> sublist b c \<Longrightarrow> sublist a (c::'a list)"
  unfolding sublist_def by (metis append.assoc)

lemma m_caps_keep:
  "st' \<in> set (m fl r st) \<Longrightarrow> snd (snd st) n \<noteq> None \<Longrightarrow> snd (snd st') n \<noteq> None"
proof (induction fl r st arbitrary: st' rule: m.induct)
  case (5 fl r1 r2 st)
  from "5.prems"(1) obtain st1 where a: "st1 \<in> set (m fl r1 st)" and b: "st' \<in> set (m fl r2 st1)" by auto
  from "5.IH"(2)[OF a b "5.IH"(1)[OF a "5.prems"(2)]] show ?case .
next
  case (6 fl r1 r2 st)
  from "6.prems"(1) have "st' \<in> set (m fl r1 st) \<or> st' \<in> set (m fl r2 st)" by simp
  then show ?case using "6.IH" "6.prems"(2) by blast
next
  case (7 fl r st)
  from star_unfold[OF "7.prems"(1)] show ?case
  proof
    assume "st' = st" with "7.prems"(2) show ?thesis by simp
  next
    assume "\<exists>st1\<in>set (m fl r st). remaining st1 < remaining st \<and> st' \<in> set (m fl (Star r) st1)"
    then obtain st1 where a: "st1 \<in> set (m fl r st)" and l: "remaining st1 < remaining st"
      and b: "st' \<in> set (m fl (Star r) st1)" by blast
    from a l have a': "st1 \<in> set (filter (\<lambda>st'. remaining st' < remaining st) (m fl r st))" by simp
    from "7.IH"(2)[OF a' b "7.IH"(1)[OF a "7.prems"(2)]] show ?thesis .
  qed
next
  case (8 fl r st)
  from lazystar_unfold[OF "8.prems"(1)] show ?case
  proof
    assume "st' = st" with "8.prems"(2) show ?thesis by simp
  next
    assume "\<exists>st1\<in>set (m fl r st). remaining st1 < remaining st \<and> st' \<in> set (m fl (LazyStar r) st1)"
    then obtain st1 where a: "st1 \<in> set (m fl r st)" and l: "remaining st1 < remaining st"
      and b: "st' \<in> set (m fl (LazyStar r) st1)" by blast
    from a l have a': "st1 \<in> set (filter (\<lambda>st'. remaining st' < remaining st) (m fl r st))" by simp
    from "8.IH"(2)[OF a' b "8.IH"(1)[OF a "8.prems"(2)]] show ?thesis .
  qed
next
  case (9 fl i r b xs k)
  from group_unfold[OF "9.prems"(1)] obtain st1 where a: "st1 \<in> set (m fl r (b, xs, k))"
    and e: "st' = (fst st1, fst (snd st1), (snd (snd st1))(i \<mapsto> take (length xs - remaining st1) xs))"
    by blast
  from "9.IH"[OF a "9.prems"(2)] e show ?case by simp
next
  case (13 fl i b xs k)
  then show ?case by (auto split: option.splits if_splits)
qed (auto split: list.splits if_splits)

lemma m_setsGroup:
  "st' \<in> set (m fl r st) \<Longrightarrow> setsGroup n r \<Longrightarrow> snd (snd st') n \<noteq> None"
proof (induction fl r st arbitrary: st' rule: m.induct)
  case (5 fl r1 r2 st)
  from "5.prems"(1) obtain st1 where a: "st1 \<in> set (m fl r1 st)" and b: "st' \<in> set (m fl r2 st1)" by auto
  from "5.prems"(2) have "setsGroup n r1 \<or> setsGroup n r2" by simp
  then show ?case
  proof
    assume "setsGroup n r1"
    from m_caps_keep[OF b "5.IH"(1)[OF a this]] show ?thesis .
  next
    assume "setsGroup n r2"
    from "5.IH"(2)[OF a b this] show ?thesis .
  qed
next
  case (6 fl r1 r2 st)
  from "6.prems"(1) have d: "st' \<in> set (m fl r1 st) \<or> st' \<in> set (m fl r2 st)" by simp
  from "6.prems"(2) have s1: "setsGroup n r1" and s2: "setsGroup n r2" by simp_all
  from d show ?case
  proof
    assume "st' \<in> set (m fl r1 st)" from "6.IH"(1)[OF this s1] show ?thesis .
  next
    assume "st' \<in> set (m fl r2 st)" from "6.IH"(2)[OF this s2] show ?thesis .
  qed
next
  case (9 fl i r b xs k)
  from group_unfold[OF "9.prems"(1)] obtain st1 where a: "st1 \<in> set (m fl r (b, xs, k))"
    and e: "st' = (fst st1, fst (snd st1), (snd (snd st1))(i \<mapsto> take (length xs - remaining st1) xs))"
    by blast
  show ?case
  proof (cases "n = i")
    case True with e show ?thesis by simp
  next
    case False
    with "9.prems"(2) have "setsGroup n r" by simp
    from "9.IH"[OF a this] e False show ?thesis by simp
  qed
qed simp_all

lemma m_capsFree:
  "st' \<in> set (m fl r st) \<Longrightarrow> \<not> sublist w (fst (snd st)) \<Longrightarrow> capsFree w (snd (snd st))
     \<Longrightarrow> capsFree w (snd (snd st'))"
proof (induction fl r st arbitrary: st' rule: m.induct)
  case (5 fl r1 r2 st)
  from "5.prems"(1) obtain st1 where a: "st1 \<in> set (m fl r1 st)" and b: "st' \<in> set (m fl r2 st1)" by auto
  from m_ctx[OF a] have "sublist (fst (snd st1)) (fst (snd st))" by (auto simp: ctx_def)
  with "5.prems"(2) have f: "\<not> sublist w (fst (snd st1))" using sublist_trans' by blast
  from "5.IH"(2)[OF a b f "5.IH"(1)[OF a "5.prems"(2,3)]] show ?case .
next
  case (6 fl r1 r2 st)
  from "6.prems"(1) have "st' \<in> set (m fl r1 st) \<or> st' \<in> set (m fl r2 st)" by simp
  then show ?case using "6.IH" "6.prems"(2,3) by blast
next
  case (7 fl r st)
  from star_unfold[OF "7.prems"(1)] show ?case
  proof
    assume "st' = st" with "7.prems"(3) show ?thesis by simp
  next
    assume "\<exists>st1\<in>set (m fl r st). remaining st1 < remaining st \<and> st' \<in> set (m fl (Star r) st1)"
    then obtain st1 where a: "st1 \<in> set (m fl r st)" and l: "remaining st1 < remaining st"
      and b: "st' \<in> set (m fl (Star r) st1)" by blast
    from a l have a': "st1 \<in> set (filter (\<lambda>st'. remaining st' < remaining st) (m fl r st))" by simp
    from m_ctx[OF a] have "sublist (fst (snd st1)) (fst (snd st))" by (auto simp: ctx_def)
    with "7.prems"(2) have f: "\<not> sublist w (fst (snd st1))" using sublist_trans' by blast
    from "7.IH"(2)[OF a' b f "7.IH"(1)[OF a "7.prems"(2,3)]] show ?thesis .
  qed
next
  case (8 fl r st)
  from lazystar_unfold[OF "8.prems"(1)] show ?case
  proof
    assume "st' = st" with "8.prems"(3) show ?thesis by simp
  next
    assume "\<exists>st1\<in>set (m fl r st). remaining st1 < remaining st \<and> st' \<in> set (m fl (LazyStar r) st1)"
    then obtain st1 where a: "st1 \<in> set (m fl r st)" and l: "remaining st1 < remaining st"
      and b: "st' \<in> set (m fl (LazyStar r) st1)" by blast
    from a l have a': "st1 \<in> set (filter (\<lambda>st'. remaining st' < remaining st) (m fl r st))" by simp
    from m_ctx[OF a] have "sublist (fst (snd st1)) (fst (snd st))" by (auto simp: ctx_def)
    with "8.prems"(2) have f: "\<not> sublist w (fst (snd st1))" using sublist_trans' by blast
    from "8.IH"(2)[OF a' b f "8.IH"(1)[OF a "8.prems"(2,3)]] show ?thesis .
  qed
next
  case (9 fl i r b xs k)
  from group_unfold[OF "9.prems"(1)] obtain st1 where a: "st1 \<in> set (m fl r (b, xs, k))"
    and e: "st' = (fst st1, fst (snd st1), (snd (snd st1))(i \<mapsto> take (length xs - remaining st1) xs))"
    by blast
  from "9.IH"[OF a] "9.prems"(2,3) have c: "capsFree w (snd (snd st1))" by simp
  have "sublist (take (length xs - remaining st1) xs) xs" by simp
  with "9.prems"(2) have "\<not> sublist w (take (length xs - remaining st1) xs)"
    using sublist_trans' by fastforce
  with c e show ?case by (simp add: capsFree_def)
next
  case (13 fl i b xs k)
  then show ?case by (auto split: option.splits if_splits)
qed (auto split: list.splits if_splits)

lemma capsFree_empty: "capsFree w Map.empty" by (simp add: capsFree_def)

lemma sublist_mid: "\<not> sublist w (A @ M @ B) \<Longrightarrow> \<not> sublist w A \<and> \<not> sublist w M \<and> \<not> sublist w B \<and> \<not> sublist w (M @ B) \<and> \<not> sublist w (A @ M)"
  by (metis append.assoc sublist_append)

lemma replaceRx_free:
  assumes ok: "tmplOK w tmpl" and ne: "w \<noteq> []" and s: "\<not> sublist w s"
  shows "\<not> sublist w (replaceRx fl r tmpl s)"
proof -
  have "\<not> sublist w ([] @ concat (map (segOut (getSubstitution tmpl)) (scan fl r [] s)))"
  proof (rule scan_ref[where \<Phi> = "\<lambda>s. \<not> sublist w s"])
    fix b b' mt B0 k B' A0
    assume mem: "(b', B0, k) \<in> set (m fl r (b, mt @ B0, Map.empty))"
      and ref: "\<And>A. \<not> sublist w (A @ B0) \<Longrightarrow> \<not> sublist w (A @ B')"
      and pre: "\<not> sublist w (A0 @ mt @ B0)"
    from sublist_mid[OF pre] have a0: "\<not> sublist w A0" and mtf: "\<not> sublist w mt"
      and mb: "\<not> sublist w (mt @ B0)" and b0: "\<not> sublist w B0" by simp_all
    from m_capsFree[OF mem] mb have "capsFree w k" by (simp add: capsFree_empty)
    with ok ne mtf have "sealed w (getSubstitution tmpl mt k)" by (intro tmpl_sealed) simp_all
    moreover from ref[of "[]"] b0 have "\<not> sublist w B'" by simp
    ultimately show "\<not> sublist w (A0 @ getSubstitution tmpl mt k @ B')"
      using a0 unfolding sealed_def by blast
  next
    from s show "\<not> sublist w ([] @ s)" by simp
  qed
  then show ?thesis by (simp add: replaceRx_def segText_segOut)
qed

lemma scan_segMatch: "list_all (segMatch fl r) (scan fl r b xs)"
proof (induction "length xs" arbitrary: xs b rule: less_induct)
  case less
  show ?case
  proof (cases xs)
    case Nil
    show ?thesis
    proof (cases "m fl r (b, [], Map.empty)")
      case Nil
      with \<open>xs = []\<close> show ?thesis by simp
    next
      case (Cons st sts)
      then have mem: "st \<in> set (m fl r (b, [], Map.empty))" by simp
      from m_ctx[OF mem] have e: "fst (snd st) = []" by (auto simp: ctx_def)
      from mem e have "(fst st, [], snd (snd st)) \<in> set (m fl r (b, [] @ [], Map.empty))"
        by (metis append_Nil prod.collapse)
      then have "isMatch fl r [] (snd (snd st))" unfolding isMatch_def by blast
      with Cons \<open>xs = []\<close> show ?thesis by (simp add: segMatch_def)
    qed
  next
    case (Cons x xs')
    show ?thesis
    proof (cases "m fl r (b, x # xs', Map.empty)")
      case Nil
      from less.hyps[of xs' "x # b"] Nil Cons
      show ?thesis by (simp add: segMatch_def)
    next
      case (Cons st sts)
      then have mem: "st \<in> set (m fl r (b, x # xs', Map.empty))" by simp
      note c = m_ctx[OF mem]
      let ?B0 = "fst (snd st)" and ?k = "snd (snd st)"
      let ?mt = "take (Suc (length xs') - remaining st) (x # xs')"
      from ctx_take(1)[OF c] have split: "x # xs' = ?mt @ ?B0" by simp
      have mem': "(fst st, ?B0, ?k) \<in> set (m fl r (b, ?mt @ ?B0, Map.empty))"
        using mem split by simp
      then have im: "isMatch fl r ?mt ?k" unfolding isMatch_def by blast
      show ?thesis
      proof (cases "remaining st < Suc (length xs')")
        case True
        then have "length ?B0 < length xs" using \<open>xs = x # xs'\<close> by (simp add: remaining_def)
        from less.hyps[OF this, of "fst st"] im Cons True \<open>xs = x # xs'\<close>
        show ?thesis by (simp add: segMatch_def)
      next
        case False
        with ctx_remaining[OF c] have eq: "remaining st = Suc (length xs')" by (simp add: remaining_def)
        then have mt: "?mt = []" by simp
        from less.hyps[of xs' "x # b"] im mt Cons False \<open>xs = x # xs'\<close>
        show ?thesis by (simp add: segMatch_def)
      qed
    qed
  qed
qed

lemma joinSegs_ok:
  "list_all (\<lambda>sg. case sg of Unmatched c \<Rightarrow> True | Matched mt k \<Rightarrow> fn mt k = Inr (rep mt k)) segs
     \<Longrightarrow> joinSegs fn segs = Inr (concat (map (segOut rep) segs))"
  by (induction fn segs rule: joinSegs.induct) (simp_all add: segOut_def)

lemma setsGroup_fence: "setsGroup 1 rx_fence" "setsGroup 2 rx_fence"
  by (simp_all add: rx_fence_def lit_def)

lemma fence_groups:
  assumes "isMatch flags_g rx_fence mt k"
  shows "\<exists>lang code. k 1 = Some lang \<and> k 2 = Some code"
proof -
  from assms obtain b b' B0 where mem: "(b', B0, k) \<in> set (m flags_g rx_fence (b, mt @ B0, Map.empty))"
    unfolding isMatch_def by blast
  from m_setsGroup[OF mem setsGroup_fence(1)] m_setsGroup[OF mem setsGroup_fence(2)]
  show ?thesis by auto
qed

lemma codeBlocks_Inr:
  "codeBlocks s = Inr (concat (map (segOut fenceText) (scan flags_g rx_fence [] s)))"
  unfolding codeBlocks_def replaceRxFn_def
proof (rule joinSegs_ok)
  have "\<And>sg. segMatch flags_g rx_fence sg \<Longrightarrow>
         (case sg of Unmatched c \<Rightarrow> True | Matched mt k \<Rightarrow> codeBlockReplacer mt k = Inr (fenceText mt k))"
  proof -
    fix sg assume a: "segMatch flags_g rx_fence sg"
    show "(case sg of Unmatched c \<Rightarrow> True | Matched mt k \<Rightarrow> codeBlockReplacer mt k = Inr (fenceText mt k))"
    proof (cases sg)
      case (Unmatched c) then show ?thesis by simp
    next
      case (Matched mt k)
      with a have "isMatch flags_g rx_fence mt k" by (simp add: segMatch_def)
      from fence_groups[OF this] Matched show ?thesis
        by (auto simp: codeBlockReplacer_def fenceText_def)
    qed
  qed
  with scan_segMatch[of flags_g rx_fence "[]" s]
  show "list_all (\<lambda>sg. case sg of Unmatched c \<Rightarrow> True | Matched mt k \<Rightarrow> codeBlockReplacer mt k = Inr (fenceText mt k))
          (scan flags_g rx_fence [] s)"
    by (auto simp: list_all_iff)
qed

lemma scan_Chr:
  "\<not> ignoreCase fl \<Longrightarrow>
     scan fl (Chr c) b xs = map (\<lambda>x. if x = c then Matched [c] Map.empty else Unmatched x) xs"
  by (induction xs arbitrary: b) (simp_all add: canonicalize_def remaining_def)

lemma replaceRx_Chr:
  "\<not> ignoreCase fl \<Longrightarrow>
     replaceRx fl (Chr c) [PLit t] s = concat (map (\<lambda>x. if x = c then t else [x]) s)"
  by (simp add: replaceRx_def scan_Chr getSubstitution_def comp_def if_distrib[of "segText _"] cong: if_cong)

lemma escapeHtml_chars:
  \<open>escapeHtml s = concat (map (\<lambda>c. if c = CHR ''&'' then ''&amp;''
                                     else if c = CHR ''<'' then ''&lt;''
                                     else if c = CHR ''>'' then ''&gt;'' else [c]) s)\<close>
  by (induction s)
     (simp_all add: escapeHtml_def rx_amp_def rx_lt_def rx_gt_def flags_g_def replaceRx_Chr)

lemma escapeHtml_no_angle: \<open>CHR ''<'' \<notin> set (escapeHtml s) \<and> CHR ''>'' \<notin> set (escapeHtml s)\<close>
  by (induction s) (simp_all add: escapeHtml_chars)

lemma scan_free:
  assumes seal: "\<And>mt k. isMatch fl r mt k \<Longrightarrow> \<not> sublist w mt \<Longrightarrow> capsFree w k \<Longrightarrow> sealed w (rep mt k)"
    and s: "\<not> sublist w s"
  shows "\<not> sublist w (concat (map (segOut rep) (scan fl r [] s)))"
proof -
  have "\<not> sublist w ([] @ concat (map (segOut rep) (scan fl r [] s)))"
  proof (rule scan_ref[where \<Phi> = "\<lambda>s. \<not> sublist w s"])
    fix b b' mt B0 k B' A0
    assume mem: "(b', B0, k) \<in> set (m fl r (b, mt @ B0, Map.empty))"
      and ref: "\<And>A. \<not> sublist w (A @ B0) \<Longrightarrow> \<not> sublist w (A @ B')"
      and pre: "\<not> sublist w (A0 @ mt @ B0)"
    from sublist_mid[OF pre] have a0: "\<not> sublist w A0" and mtf: "\<not> sublist w mt"
      and mb: "\<not> sublist w (mt @ B0)" and b0: "\<not> sublist w B0" by simp_all
    from m_capsFree[OF mem] mb have "capsFree w k" by (simp add: capsFree_empty)
    moreover from mem have "isMatch fl r mt k" unfolding isMatch_def by blast
    ultimately have "sealed w (rep mt k)" using seal mtf by blast
    moreover from ref[of "[]"] b0 have "\<not> sublist w B'" by simp
    ultimately show "\<not> sublist w (A0 @ rep mt k @ B')"
      using a0 unfolding sealed_def by blast
  next
    from s show "\<not> sublist w ([] @ s)" by simp
  qed
  then show ?thesis by simp
qed

lemma sublist_trim: "sublist (trim c) c"
proof -
  let ?P = "\<lambda>c. c \<in> set whiteSpace"
  have "sublist (rev (dropWhile ?P (rev (dropWhile ?P c)))) (dropWhile ?P c)"
    by (metis sublist_dropWhile sublist_rev_left)
  then show ?thesis unfolding trim_def using sublist_trans' sublist_dropWhile by blast
qed

lemma fence_sealed:
  assumes ok: "tmplOK w fenceTemplate" and ne: "w \<noteq> []"
    and im: "isMatch flags_g rx_fence mt k" and cf: "capsFree w k"
  shows "sealed w (fenceText mt k)"
proof -
  from fence_groups[OF im] obtain lang code where k: "k 1 = Some lang" "k 2 = Some code" by blast
  from cf k have l: "\<not> sublist w lang" and c: "\<not> sublist w code" by (auto simp: capsFree_def)
  from c have tc: "\<not> sublist w (trim code)" using sublist_trans' sublist_trim by blast
  from ok have s1: \<open>sealed w ''<pre class="code-block" data-lang="''\<close>
    and s2: \<open>sealed w ''"><code>''\<close> and s3: \<open>sealed w ''</code></pre>''\<close>
    by (simp_all add: fenceTemplate_def litOK_sealed)
  from sealed_app3[OF s1 l sealed_app3[OF s2 tc s3]] k
  show ?thesis by (simp add: fenceText_def)
qed

lemma codeBlocks_free:
  assumes "tmplOK w fenceTemplate" "w \<noteq> []" "\<not> sublist w s"
  shows "\<exists>out. codeBlocks s = Inr out \<and> \<not> sublist w out"
proof -
  have "\<not> sublist w (concat (map (segOut fenceText) (scan flags_g rx_fence [] s)))"
  proof (rule scan_free)
    fix mt k
    assume "isMatch flags_g rx_fence mt k" "capsFree w k"
    then show "sealed w (fenceText mt k)" using assms(1,2) by (intro fence_sealed)
  qed (rule assms(3))
  then show ?thesis by (simp add: codeBlocks_Inr)
qed

lemma inlineStages_free:
  assumes "list_all (tmplOK w) inlineTemplates" "w \<noteq> []" "\<not> sublist w s"
  shows "\<not> sublist w (inlineStages s)"
  using assms
  by (simp add: inlineTemplates_def inlineStages_def taskLists_def orderedLists_def
      unorderedLists_def horizontalRules_def blockquotes_def images_def links_def
      strikethrough_def italic_def bold_def headers_def header_def inlineCode_def
      replaceRx_free del: tmplOK.simps)

lemma markup_stages: "markup html = cleanUp (wrapParagraph (lineBreaks (inlineStages html)))"
  by (simp add: markup_def inlineStages_def)

lemmas check_defs = litOK_def headCheck_def tailCheck_def suffix_to_prefix sublist_Cons_right

lemma p_templates: \<open>list_all (tmplOK ''<p>'') inlineTemplates \<and> tmplOK ''<p>'' fenceTemplate\<close>
  by (simp add: inlineTemplates_def fenceTemplate_def check_defs)

lemma ol_templates: \<open>list_all (tmplOK ''<ol'') inlineTemplates \<and> tmplOK ''<ol'' fenceTemplate\<close>
  by (simp add: inlineTemplates_def fenceTemplate_def check_defs)

lemmas m_basic = m.simps(1-6) m.simps(9-14)

declare m.simps [simp del]

lemma m_lit_seq:
  "\<not> ignoreCase fl \<Longrightarrow>
     m fl (seq (lit u @ rs)) (b, xs, k) =
       (if prefix u xs then m fl (seq rs) (rev u @ b, drop (length u) xs, k) else [])"
  by (induction u arbitrary: b xs) (auto simp: m_basic lit_def canonicalize_def split: list.splits)

lemma m_lit:
  "\<not> ignoreCase fl \<Longrightarrow>
     m fl (seq (lit u)) (b, xs, k) =
       (if prefix u xs then [(rev u @ b, drop (length u) xs, k)] else [])"
  using m_lit_seq[of fl u "[]" b xs k] by (simp add: m_basic)

lemma m_seq_single: "m fl (Seq r Eps) st = m fl r st"
proof -
  have "m fl Eps = (\<lambda>st. [st])" by (rule ext) (simp add: m_basic)
  then show ?thesis by (simp add: m_basic)
qed

lemma prefix_drop_id: "prefix p xs \<Longrightarrow> xs = p @ drop (length p) xs"
  by (auto simp: prefix_def)

lemma prefix_append_drop:
  "prefix (u @ t) xs \<longleftrightarrow> prefix u xs \<and> prefix t (drop (length u) xs)"
  by (auto simp: prefix_def)

lemma m_group_lit:
  "\<not> ignoreCase fl \<Longrightarrow>
     m fl (Group n (seq (lit t))) (b, xs, k) =
       (if prefix t xs then [(rev t @ b, drop (length t) xs, k(n \<mapsto> t))] else [])"
  by (auto simp: m_basic m_lit prefix_def)

lemma m_lit_group:
  "\<not> ignoreCase fl \<Longrightarrow>
     m fl (seq (lit u @ [Group n (seq (lit t))])) (b, xs, k) =
       (if prefix (u @ t) xs
        then [(rev (u @ t) @ b, drop (length (u @ t)) xs, k(n \<mapsto> t))] else [])"
  by (simp add: m_lit_seq m_seq_single m_group_lit prefix_append_drop add.commute)

lemma m_group_lit_after:
  "\<not> ignoreCase fl \<Longrightarrow>
     m fl (Seq (Group n (seq (lit t))) (seq (lit u))) (b, xs, k) =
       (if prefix (t @ u) xs
        then [(rev (t @ u) @ b, drop (length (t @ u)) xs, k(n \<mapsto> t))] else [])"
  by (simp add: m.simps(5) m_lit m_group_lit prefix_append_drop add.commute)

lemma isMatch_det:
  assumes sh: "\<And>b xs k0. m fl r (b, xs, k0) =
                 (if prefix u xs then [(rev u @ b, drop (length u) xs, F k0)] else [])"
    and im: "isMatch fl r mt k"
  shows "mt = u \<and> k = F Map.empty"
proof -
  from im obtain b b' B0 where mem: "(b', B0, k) \<in> set (m fl r (b, mt @ B0, Map.empty))"
    unfolding isMatch_def by blast
  then have p: "prefix u (mt @ B0)" and B0: "B0 = drop (length u) (mt @ B0)" and k: "k = F Map.empty"
    by (simp_all add: sh split: if_splits)
  from p obtain z where z: "mt @ B0 = u @ z" by (auto simp: prefix_def)
  with B0 have "B0 = z" by simp
  with z k show ?thesis by simp
qed

lemma ic_g: "\<not> ignoreCase flags_g" by (simp add: flags_g_def)

lemma isMatch_emptyP:
  "isMatch flags_g rx_emptyP mt k \<Longrightarrow> mt = ''<p></p>''"
  using isMatch_det[of flags_g rx_emptyP "''<p></p>''" "\<lambda>k. k" mt k]
  by (simp add: rx_emptyP_def m_lit[OF ic_g])

lemma isMatch_pBefore:
  "isMatch flags_g (rx_pBefore t) mt k \<Longrightarrow> mt = ''<p>'' @ t \<and> k 1 = Some t"
  using isMatch_det[of flags_g "rx_pBefore t" "''<p>'' @ t" "\<lambda>k. k(1 \<mapsto> t)" mt k]
  by (simp add: rx_pBefore_def m_lit_group[OF ic_g])

lemma isMatch_pAfter:
  "isMatch flags_g (rx_pAfter t) mt k \<Longrightarrow> mt = t @ ''</p>'' \<and> k 1 = Some t"
  using isMatch_det[of flags_g "rx_pAfter t" "t @ ''</p>''" "\<lambda>k. k(1 \<mapsto> t)" mt k]
  by (simp add: rx_pAfter_def m_group_lit_after[OF ic_g])

lemma isMatch_blankLine:
  "isMatch flags_g rx_blankLine mt k \<Longrightarrow> mt = [CHR 0x0A, CHR 0x0A]"
  using isMatch_det[of flags_g rx_blankLine "[CHR 0x0A, CHR 0x0A]" "\<lambda>k. k" mt k]
    m_lit[OF ic_g, of "[CHR 0x0A, CHR 0x0A]"]
  by (simp add: rx_blankLine_def lit_def)

lemma m_group_capture:
  assumes "st' \<in> set (m fl (Group n r) (b, xs, k))"
  shows "\<exists>st1 u. st1 \<in> set (m fl r (b, xs, k)) \<and> xs = u @ fst (snd st1) \<and>
           st' = (fst st1, fst (snd st1), (snd (snd st1))(n \<mapsto> u))"
proof -
  from group_unfold[OF assms] obtain st1 where a: "st1 \<in> set (m fl r (b, xs, k))"
    and e: "st' = (fst st1, fst (snd st1), (snd (snd st1))(n \<mapsto> take (length xs - remaining st1) xs))"
    by blast
  from ctx_take(1)[OF m_ctx[OF a]] a e show ?thesis by blast
qed

lemma m_headingTag:
  assumes "st1 \<in> set (m flags_g (seq (lit t @ [Class False [CRange CHR ''1'' CHR ''6''], Chr CHR ''>''])) (b, xs, k0))"
  shows "\<exists>d. xs = (t @ [d] @ ''>'') @ fst (snd st1) \<and> snd (snd st1) = k0"
proof -
  from assms have p: "prefix t xs"
    and a: "st1 \<in> set (m flags_g (seq [Class False [CRange CHR ''1'' CHR ''6''], Chr CHR ''>''])
                 (rev t @ b, drop (length t) xs, k0))"
    by (simp_all add: m_lit_seq[OF ic_g] split: if_splits)
  from a have "\<exists>d. drop (length t) xs = d # CHR ''>'' # fst (snd st1) \<and> snd (snd st1) = k0"
    by (auto simp: m_basic canonicalize_def flags_g_def split: list.splits if_splits) metis
  then obtain d where "drop (length t) xs = d # CHR ''>'' # fst (snd st1)" and k: "snd (snd st1) = k0"
    by blast
  moreover from p have "xs = t @ drop (length t) xs" by (auto simp: prefix_def)
  ultimately have "xs = (t @ [d] @ ''>'') @ fst (snd st1)" by simp
  with k show ?thesis by blast
qed

lemma isMatch_pHeadingOpen:
  assumes "isMatch flags_g rx_pHeadingOpen mt k"
  shows "\<exists>d. mt = ''<p><h'' @ [d] @ ''>'' \<and> k 1 = Some (''<h'' @ [d] @ ''>'')"
proof -
  let ?inner = "seq (lit ''<h'' @ [Class False [CRange CHR ''1'' CHR ''6''], Chr CHR ''>''])"
  from assms obtain b b' B0 xs where xs: "xs = mt @ B0" and
    mem: "(b', B0, k) \<in> set (m flags_g (seq (lit ''<p>'' @ [Group 1 ?inner])) (b, xs, Map.empty))"
    unfolding isMatch_def rx_pHeadingOpen_def by blast
  have "m flags_g (seq (lit ''<p>'' @ [Group 1 ?inner])) (b, xs, Map.empty) =
        (if prefix ''<p>'' xs then m flags_g (Group 1 ?inner) (rev ''<p>'' @ b, drop (length ''<p>'') xs, Map.empty) else [])"
    unfolding m_lit_seq[OF ic_g] seq.simps m_seq_single ..
  with mem have p: "prefix ''<p>'' xs"
    and g: "(b', B0, k) \<in> set (m flags_g (Group 1 ?inner)
               (rev ''<p>'' @ b, drop (length ''<p>'') xs, Map.empty))"
    by (simp_all split: if_splits)
  from m_group_capture[OF g] obtain st1 u where
    a: "st1 \<in> set (m flags_g ?inner (rev ''<p>'' @ b, drop (length ''<p>'') xs, Map.empty))"
    and dx: "drop (length ''<p>'') xs = u @ fst (snd st1)"
    and st': "(b', B0, k) = (fst st1, fst (snd st1), (snd (snd st1))(1 \<mapsto> u))" by blast
  from m_headingTag[OF a] obtain d where
    d: "drop (length ''<p>'') xs = (''<h'' @ [d] @ ''>'') @ fst (snd st1)" by blast
  from dx d have u: "u = ''<h'' @ [d] @ ''>''" by simp
  from prefix_drop_id[OF p] d st' have "xs = (''<p><h'' @ [d] @ ''>'') @ B0" by simp
  with xs have "mt = ''<p><h'' @ [d] @ ''>''" by simp
  with st' u show ?thesis by auto
qed

lemma isMatch_pHeadingClose:
  assumes "isMatch flags_g rx_pHeadingClose mt k"
  shows "\<exists>d. mt = ''</h'' @ [d] @ ''></p>'' \<and> k 1 = Some (''</h'' @ [d] @ ''>'')"
proof -
  let ?inner = "seq (lit ''</h'' @ [Class False [CRange CHR ''1'' CHR ''6''], Chr CHR ''>''])"
  from assms obtain b b' B0 xs where xs: "xs = mt @ B0" and
    mem: "(b', B0, k) \<in> set (m flags_g (seq ([Group 1 ?inner] @ lit ''</p>'')) (b, xs, Map.empty))"
    unfolding isMatch_def rx_pHeadingClose_def by blast
  then have "(b', B0, k) \<in> set (concat (map (m flags_g (seq (lit ''</p>'')))
                 (m flags_g (Group 1 ?inner) (b, xs, Map.empty))))"
    by (simp add: m.simps(5))
  then obtain st' where g: "st' \<in> set (m flags_g (Group 1 ?inner) (b, xs, Map.empty))"
    and l: "(b', B0, k) \<in> set (m flags_g (seq (lit ''</p>'')) st')" by auto
  from m_group_capture[OF g] obtain st1 u where a: "st1 \<in> set (m flags_g ?inner (b, xs, Map.empty))"
    and xu: "xs = u @ fst (snd st1)"
    and st': "st' = (fst st1, fst (snd st1), (snd (snd st1))(1 \<mapsto> u))" by blast
  from m_headingTag[OF a] obtain d where d: "xs = (''</h'' @ [d] @ ''>'') @ fst (snd st1)" by blast
  from xu d have u: "u = ''</h'' @ [d] @ ''>''" by simp
  from l st' have p: "prefix ''</p>'' (fst (snd st1))"
    and B0: "B0 = drop (length ''</p>'') (fst (snd st1))" and k: "k = (snd (snd st1))(1 \<mapsto> u)"
    by (simp_all add: m_lit[OF ic_g] split: if_splits)
  from prefix_drop_id[OF p] B0 have "fst (snd st1) = ''</p>'' @ B0" by simp
  with d have "xs = (''</h'' @ [d] @ ''></p>'') @ B0" by simp
  with xs have "mt = ''</h'' @ [d] @ ''></p>''" by simp
  with k u show ?thesis by auto
qed

lemma pfree_gfree: "\<not> sublist ''<p>'' s \<Longrightarrow> gfree s"
proof -
  assume a: "\<not> sublist ''<p>'' s"
  have "\<And>c. sublist ''<p>'' (c # ''<p>'')" by (simp add: sublist_Cons_right)
  moreover have "sublist ''<p>'' ''<p><p>''" by (simp add: sublist_Cons_right)
  ultimately show ?thesis unfolding gfree_def using a sublist_trans' by blast
qed

lemma lineBreaks_free:
  assumes "tmplOK w [PLit ''</p><p>'']" "tmplOK w [PLit ''<br />'']" "w \<noteq> []" "\<not> sublist w s"
  shows "\<not> sublist w (lineBreaks s)"
  unfolding lineBreaks_def using assms by (intro replaceRx_free)

lemma pfree_precP: "\<not> sublist ''<p>'' s \<Longrightarrow> precP s"
  unfolding precP_def sublist_def by blast

lemma precP_gfree:
  assumes "precP s" shows "gfree s"
  unfolding gfree_def
proof (intro conjI allI impI notI)
  fix c assume c: "c \<noteq> CHR ''>''" and "sublist (c # ''<p>'') s"
  then obtain a d where "s = a @ (c # ''<p>'') @ d" unfolding sublist_def by blast
  then have "s = (a @ [c]) @ ''<p>'' @ d" by simp
  with assms have "suffix ''</p>'' (a @ [c])" unfolding precP_def by blast
  with c show False by (auto simp: suffix_def)
next
  assume "sublist ''<p><p>'' s"
  then obtain a d where "s = a @ ''<p><p>'' @ d" unfolding sublist_def by blast
  then have "s = (a @ ''<p>'') @ ''<p>'' @ d" by simp
  with assms have "suffix ''</p>'' (a @ ''<p>'')" unfolding precP_def by blast
  then show False by (auto simp: suffix_def)
qed

lemma split2:
  assumes "X @ Y = a @ w @ c"
  shows "(\<exists>u. X = a @ w @ u)
       \<or> (\<exists>x y. w = x @ y \<and> x \<noteq> [] \<and> y \<noteq> [] \<and> X = a @ x \<and> prefix y Y)
       \<or> (\<exists>v. Y = v @ w @ c \<and> a = X @ v)"
proof -
  from assms have "X @ Y = a @ (w @ c)" by simp
  then obtain us where "(X = a @ us \<and> us @ Y = w @ c) \<or> (X @ us = a \<and> Y = us @ (w @ c))"
    unfolding append_eq_append_conv2 by blast
  then show ?thesis
  proof
    assume h: "X = a @ us \<and> us @ Y = w @ c"
    then obtain vs where "(us = w @ vs \<and> vs @ Y = c) \<or> (us @ vs = w \<and> Y = vs @ c)"
      unfolding append_eq_append_conv2 by blast
    then show ?thesis
    proof
      assume "us = w @ vs \<and> vs @ Y = c"
      with h have "X = a @ w @ vs" by simp
      then show ?thesis by blast
    next
      assume k: "us @ vs = w \<and> Y = vs @ c"
      show ?thesis
      proof (cases "us = []")
        case True
        with h k have "Y = [] @ w @ c \<and> a = X @ []" by simp
        then show ?thesis by blast
      next
        case False
        show ?thesis
        proof (cases "vs = []")
          case True
          with h k have "X = a @ w @ []" by simp
          then show ?thesis by blast
        next
          case vne: False
          from k have "prefix vs Y" by simp
          with h k False vne have "w = us @ vs \<and> us \<noteq> [] \<and> vs \<noteq> [] \<and> X = a @ us \<and> prefix vs Y"
            by simp
          then show ?thesis by blast
        qed
      qed
    qed
  next
    assume "X @ us = a \<and> Y = us @ (w @ c)"
    then have "Y = us @ w @ c \<and> a = X @ us" by simp
    then show ?thesis by blast
  qed
qed

lemma headCheckD:
  assumes "headCheck w R" "w = x @ y" "x \<noteq> []" "y \<noteq> []"
  shows "\<not> prefix y R \<and> \<not> prefix R y"
proof -
  from assms(2) have "y \<in> set (suffixes w)" by (simp add: in_set_suffixes suffix_def)
  moreover from assms(2,3) have "y \<noteq> w" by simp
  ultimately show ?thesis using assms(1,4) by (auto simp: headCheck_def list_all_iff)
qed

lemma tailCheckD:
  assumes "tailCheck w R" "w = x @ y" "x \<noteq> []" "y \<noteq> []"
  shows "\<not> suffix x R \<and> \<not> suffix R x"
proof -
  from assms(2) have "x \<in> set (prefixes w)" by (simp add: in_set_prefixes)
  moreover from assms(2,4) have "x \<noteq> w" by simp
  ultimately show ?thesis using assms(1,3) by (auto simp: tailCheck_def list_all_iff)
qed

lemma precP_step:
  assumes mt: "mt \<noteq> []" "last mt \<notin> set ''</p>''"
    and hc: "headCheck ''<p>'' R" and tc: "tailCheck ''<p>'' R"
    and inner: "\<And>us vs. R = us @ ''<p>'' @ vs \<Longrightarrow> suffix ''</p>'' us"
    and ref: "\<And>A. precP (A @ B0) \<Longrightarrow> precP (A @ B')"
    and pre: "precP (A0 @ mt @ B0)"
  shows "precP (A0 @ R @ B')"
  unfolding precP_def
proof (intro allI impI)
  fix a c assume eq: "A0 @ R @ B' = a @ ''<p>'' @ c"
  have pa: "precP A0" unfolding precP_def
  proof (intro allI impI)
    fix a' c' assume "A0 = a' @ ''<p>'' @ c'"
    then have "A0 @ mt @ B0 = a' @ ''<p>'' @ (c' @ mt @ B0)" by simp
    with pre show "suffix ''</p>'' a'" unfolding precP_def by blast
  qed
  from ref[of "A0 @ mt"] pre have pb: "precP (A0 @ mt @ B')" by simp
  from split2[OF eq] show "suffix ''</p>'' a"
  proof (elim disjE exE conjE)
    fix u assume "A0 = a @ ''<p>'' @ u"
    with pa show ?thesis unfolding precP_def by blast
  next
    fix x y assume w: "''<p>'' = x @ y" and ne: "x \<noteq> []" "y \<noteq> []" and p: "prefix y (R @ B')"
    from p have "prefix y R \<or> prefix R y" by (auto simp: prefix_append)
    with headCheckD[OF hc w ne] show ?thesis by blast
  next
    fix v assume rb: "R @ B' = v @ ''<p>'' @ c" and a: "a = A0 @ v"
    from split2[OF rb] show ?thesis
    proof (elim disjE exE conjE)
      fix u assume "R = v @ ''<p>'' @ u"
      from inner[OF this] a show ?thesis by (simp add: suffix_append)
    next
      fix x y assume w: "''<p>'' = x @ y" and ne: "x \<noteq> []" "y \<noteq> []" and r: "R = v @ x"
      from r have "suffix x R" by (simp add: suffix_def)
      with tailCheckD[OF tc w ne] show ?thesis by blast
    next
      fix v' assume b': "B' = v' @ ''<p>'' @ c" and v: "v = R @ v'"
      from b' have "A0 @ mt @ B' = (A0 @ mt @ v') @ ''<p>'' @ c" by simp
      with pb have "suffix ''</p>'' ((A0 @ mt) @ v')" unfolding precP_def by simp
      then have "suffix ''</p>'' v' \<or> (\<exists>xs'. ''</p>'' = xs' @ v' \<and> suffix xs' (A0 @ mt))"
        unfolding suffix_append by blast
      then have "suffix ''</p>'' v'"
      proof
        assume "\<exists>xs'. ''</p>'' = xs' @ v' \<and> suffix xs' (A0 @ mt)"
        then obtain xs' where e: "''</p>'' = xs' @ v'" and sx: "suffix xs' (A0 @ mt)" by blast
        show ?thesis
        proof (cases "xs' = []")
          case True with e show ?thesis by (simp add: suffix_def)
        next
          case False
          from sx obtain zs where "A0 @ mt = zs @ xs'" unfolding suffix_def by blast
          then have "last (A0 @ mt) = last (zs @ xs')" by simp
          with False mt(1) have "last xs' = last mt" by simp
          moreover from False have "last xs' \<in> set xs'" by simp
          moreover from e have "set xs' \<subseteq> set ''</p>''" by (metis set_append Un_upper1)
          ultimately have "last mt \<in> set ''</p>''" by (simp only: subsetD)
          with mt(2) show ?thesis by (rule notE)
        qed
      qed
      with a v show ?thesis by (simp add: suffix_append)
    qed
  qed
qed

lemma inner_blank: "''</p><p>'' = us @ ''<p>'' @ vs \<Longrightarrow> suffix ''</p>'' us"
  by (auto simp: append_eq_Cons_conv Cons_eq_append_conv suffix_def)

lemma inner_br: "''<br />'' = us @ ''<p>'' @ vs \<Longrightarrow> suffix ''</p>'' us"
  by (auto simp: append_eq_Cons_conv Cons_eq_append_conv suffix_def)

lemma isMatch_newline:
  "isMatch flags_g rx_newline mt k \<Longrightarrow> mt = [CHR 0x0A]"
  using isMatch_det[of flags_g rx_newline "[CHR 0x0A]" "\<lambda>k. k" mt k]
    m_lit[OF ic_g, of "[CHR 0x0A]"]
  by (simp add: rx_newline_def lit_def m_seq_single)

lemma replace_precP:
  assumes shape: "\<And>mt k. isMatch flags_g r mt k \<Longrightarrow> mt \<noteq> [] \<and> last mt \<notin> set ''</p>''"
    and hc: "headCheck ''<p>'' R" and tc: "tailCheck ''<p>'' R"
    and inner: "\<And>us vs. R = us @ ''<p>'' @ vs \<Longrightarrow> suffix ''</p>'' us"
    and s: "precP s"
  shows "precP (replaceRx flags_g r [PLit R] s)"
proof -
  have "precP ([] @ concat (map (segOut (getSubstitution [PLit R])) (scan flags_g r [] s)))"
  proof (rule scan_ref[where \<Phi> = precP])
    fix b b' mt B0 k B' A0
    assume mem: "(b', B0, k) \<in> set (m flags_g r (b, mt @ B0, Map.empty))"
      and ref: "\<And>A. precP (A @ B0) \<Longrightarrow> precP (A @ B')"
      and pre: "precP (A0 @ mt @ B0)"
    from mem have "isMatch flags_g r mt k" unfolding isMatch_def by blast
    from shape[OF this] have mt: "mt \<noteq> []" "last mt \<notin> set ''</p>''" by simp_all
    from precP_step[OF mt hc tc inner ref pre]
    show "precP (A0 @ getSubstitution [PLit R] mt k @ B')" by (simp add: getSubstitution_def)
  next
    from s show "precP ([] @ s)" by simp
  qed
  then show ?thesis by (simp add: replaceRx_def segText_segOut)
qed

lemma lineBreaks_precP:
  assumes "precP s" shows "precP (lineBreaks s)"
  unfolding lineBreaks_def
proof (rule replace_precP)
  show "precP (replaceRx flags_g rx_blankLine [PLit ''</p><p>''] s)"
  proof (rule replace_precP)
    fix mt k assume "isMatch flags_g rx_blankLine mt k"
    from isMatch_blankLine[OF this] show "mt \<noteq> [] \<and> last mt \<notin> set ''</p>''" by simp
  next
    show "headCheck ''<p>'' ''</p><p>''" by (simp add: check_defs)
    show "tailCheck ''<p>'' ''</p><p>''" by (simp add: check_defs)
    show "\<And>us vs. ''</p><p>'' = us @ ''<p>'' @ vs \<Longrightarrow> suffix ''</p>'' us" by (rule inner_blank)
    show "precP s" by (rule assms)
  qed
next
  fix mt k assume "isMatch flags_g rx_newline mt k"
  from isMatch_newline[OF this] show "mt \<noteq> [] \<and> last mt \<notin> set ''</p>''" by simp
next
  show "headCheck ''<p>'' ''<br />''" by (simp add: check_defs)
  show "tailCheck ''<p>'' ''<br />''" by (simp add: check_defs)
  show "\<And>us vs. ''<br />'' = us @ ''<p>'' @ vs \<Longrightarrow> suffix ''</p>'' us" by (rule inner_br)
qed

lemma wrap_free:
  assumes "wrapOK w" "\<not> sublist w h"
  shows "\<not> sublist w (wrapParagraph h)"
proof (cases "startsWith h ''<''")
  case True with assms(2) show ?thesis by (simp add: wrapParagraph_def)
next
  case False
  from assms(1) have t: "tailSealed w ''<p>''" and h: "headSealed w ''</p>''"
    and np: "\<not> sublist w ''<p>''" and nc: "\<not> sublist w ''</p>''"
    by (simp_all add: wrapOK_def headCheck_sound tailCheck_sound)
  from h assms(2) nc have "\<not> sublist w (h @ ''</p>'' @ [])" unfolding headSealed_def by simp
  then have hc: "\<not> sublist w (h @ ''</p>'')" by simp
  from np have "\<not> sublist w ([] @ ''<p>'')" by simp
  with t hc have "\<not> sublist w ([] @ ''<p>'' @ (h @ ''</p>''))" unfolding tailSealed_def
    by blast
  with False show ?thesis by (simp add: wrapParagraph_def)
qed

lemma gword_wrapOK: "c \<noteq> CHR ''>'' \<Longrightarrow> wrapOK (c # ''<p>'')"
  by (simp add: wrapOK_def check_defs)

lemma wrap_gfree:
  assumes "precP h" shows "gfree (wrapParagraph h)"
proof -
  note g = precP_gfree[OF assms]
  have "\<not> sublist ''<p><p>'' (wrapParagraph h)"
  proof (cases "startsWith h ''<''")
    case True with g show ?thesis by (simp add: wrapParagraph_def gfree_def)
  next
    case False
    from g have hp: "\<not> sublist ''<p><p>'' h" by (simp add: gfree_def)
    have "headSealed ''<p><p>'' ''</p>''" by (rule headCheck_sound) (simp add: check_defs)
    moreover have "\<not> sublist ''<p><p>'' (''</p>'' @ [])" by (simp add: sublist_Cons_right)
    ultimately have "\<not> sublist ''<p><p>'' (h @ ''</p>'' @ [])" using hp unfolding headSealed_def
      by blast
    then have hc: "\<not> sublist ''<p><p>'' (h @ ''</p>'')" by simp
    have "\<not> sublist ''<p><p>'' (''<p>'' @ (h @ ''</p>''))"
    proof
      assume "sublist ''<p><p>'' (''<p>'' @ (h @ ''</p>''))"
      then obtain a c where e: "''<p>'' @ (h @ ''</p>'') = a @ ''<p><p>'' @ c"
        unfolding sublist_def by blast
      from split2[OF e] show False
      proof (elim disjE exE conjE)
        fix u assume "''<p>'' = a @ ''<p><p>'' @ u"
        then have "length ''<p>'' = length (a @ ''<p><p>'' @ u)" by (rule arg_cong)
        then show False by simp
      next
        fix x y assume w: "''<p><p>'' = x @ y" and ne: "x \<noteq> []" "y \<noteq> []"
          and x: "''<p>'' = a @ x" and p: "prefix y (h @ ''</p>'')"
        from x have "suffix x ''<p>''" by (simp add: suffix_def)
        then have "x \<in> set (suffixes ''<p>'')" by (simp only: in_set_suffixes)
        with ne w have "x = ''<p>'' \<and> y = ''<p>''" by auto
        with p False show False by (cases h) (auto simp: startsWith_def)
      next
        fix v assume "h @ ''</p>'' = v @ ''<p><p>'' @ c"
        with hc show False unfolding sublist_def by blast
      qed
    qed
    with False show ?thesis by (simp add: wrapParagraph_def)
  qed
  moreover have "\<And>c. c \<noteq> CHR ''>'' \<Longrightarrow> \<not> sublist (c # ''<p>'') (wrapParagraph h)"
  proof -
    fix c :: char assume c: "c \<noteq> CHR ''>''"
    with g have "\<not> sublist (c # ''<p>'') h" unfolding gfree_def by blast
    from wrap_free[OF gword_wrapOK[OF c] this] show "\<not> sublist (c # ''<p>'') (wrapParagraph h)" .
  qed
  ultimately show ?thesis unfolding gfree_def by blast
qed

lemma gfree_last:
  assumes "gfree (A @ ''<p></p>'' @ B)" "A \<noteq> []"
  shows "last A = CHR ''>''"
proof (rule ccontr)
  assume n: "last A \<noteq> CHR ''>''"
  from assms(2) have "A = butlast A @ [last A]" by simp
  then have "A @ ''<p></p>'' @ B = butlast A @ (last A # ''<p>'') @ (''</p>'' @ B)"
    by (metis append.assoc append_Cons append_Nil)
  then have "sublist (last A # ''<p>'') (A @ ''<p></p>'' @ B)"
    unfolding sublist_def by blast
  with assms(1) n show False unfolding gfree_def by blast
qed

lemma gfree_not_p:
  assumes "gfree (A @ ''<p></p>'' @ B)"
  shows "\<not> suffix ''<p>'' A"
proof
  assume "suffix ''<p>'' A"
  then obtain A' where "A = A' @ ''<p>''" unfolding suffix_def by blast
  then have "A @ ''<p></p>'' @ B = A' @ ''<p><p>'' @ (''</p>'' @ B)" by simp
  then have "sublist ''<p><p>'' (A @ ''<p></p>'' @ B)" unfolding sublist_def by blast
  with assms show False unfolding gfree_def by blast
qed

lemma delete_free:
  assumes g: "gfree (A @ ''<p></p>'' @ B)" and ok: "delOK w"
    and f: "\<not> sublist w (A @ ''<p></p>'' @ B)"
  shows "\<not> sublist w (A @ B)"
proof
  assume s: "sublist w (A @ B)"
  from sublist_mid[OF f] have fa: "\<not> sublist w A" and fb: "\<not> sublist w B" by simp_all
  with s obtain x1 x2 where w: "w = x1 @ x2" and s1: "suffix x1 A" and p2: "prefix x2 B"
    unfolding sublist_append by blast
  from w s1 fa have x2ne: "x2 \<noteq> []" by auto
  from w p2 fb have x1ne: "x1 \<noteq> []" by auto
  from s1 x1ne have ane: "A \<noteq> []" by auto
  from s1 obtain A' where A': "A = A' @ x1" unfolding suffix_def by blast
  with x1ne have "last x1 = last A" by simp
  with gfree_last[OF g ane] have l: "last x1 = CHR ''>''" by simp
  from w have "x1 \<in> set (prefixes w)" by (simp add: in_set_prefixes)
  moreover from w x2ne have "x1 \<noteq> w" by simp
  ultimately have "sublist w (x1 @ ''<p></p>'')"
    using ok x1ne l by (auto simp: delOK_def list_all_iff)
  moreover from A' have "A @ ''<p></p>'' @ B = A' @ (x1 @ ''<p></p>'') @ B" by simp
  then have "sublist (x1 @ ''<p></p>'') (A @ ''<p></p>'' @ B)" unfolding sublist_def by blast
  ultimately show False using f sublist_trans' by blast
qed

lemma gword_delOK: "c \<noteq> CHR ''>'' \<Longrightarrow> delOK (c # ''<p>'')"
  by (simp add: delOK_def)

lemma pp_delOK: "delOK ''<p><p>''"
  by (simp add: delOK_def sublist_Cons_right)

lemma gfree_delete:
  assumes "gfree (A @ ''<p></p>'' @ B)" shows "gfree (A @ B)"
  unfolding gfree_def
proof (intro conjI allI impI)
  fix c :: char assume c: "c \<noteq> CHR ''>''"
  with assms have "\<not> sublist (c # ''<p>'') (A @ ''<p></p>'' @ B)" unfolding gfree_def by blast
  from delete_free[OF assms gword_delOK[OF c] this]
  show "\<not> sublist (c # ''<p>'') (A @ B)" .
next
  from assms have "\<not> sublist ''<p><p>'' (A @ ''<p></p>'' @ B)" unfolding gfree_def by blast
  from delete_free[OF assms pp_delOK this] show "\<not> sublist ''<p><p>'' (A @ B)" .
qed

lemma cleanUp_strips: "cleanUp html = strips (replaceRx flags_g rx_emptyP [] html)"
  by (simp add: cleanUp_def strips_def)

lemma removal_keeps:
  assumes g: "gfree s" and ok: "delOK w" and f: "\<not> sublist w s"
  shows "\<not> sublist w (replaceRx flags_g rx_emptyP [] s)"
proof -
  let ?\<Phi> = "\<lambda>s. gfree s \<and> \<not> sublist w s"
  have "?\<Phi> ([] @ concat (map (segOut (getSubstitution [])) (scan flags_g rx_emptyP [] s)))"
  proof (rule scan_ref[where \<Phi> = ?\<Phi>])
    fix b b' mt B0 k B' A0
    assume mem: "(b', B0, k) \<in> set (m flags_g rx_emptyP (b, mt @ B0, Map.empty))"
      and ref: "\<And>A. ?\<Phi> (A @ B0) \<Longrightarrow> ?\<Phi> (A @ B')"
      and pre: "?\<Phi> (A0 @ mt @ B0)"
    from mem have "isMatch flags_g rx_emptyP mt k" unfolding isMatch_def by blast
    from isMatch_emptyP[OF this] have mt: "mt = ''<p></p>''" .
    from pre mt have g': "gfree (A0 @ ''<p></p>'' @ B0)" and f': "\<not> sublist w (A0 @ ''<p></p>'' @ B0)"
      by simp_all
    from gfree_delete[OF g'] delete_free[OF g' ok f'] have "?\<Phi> (A0 @ B0)" by simp
    from ref[OF this] show "?\<Phi> (A0 @ getSubstitution [] mt k @ B')"
      by (simp add: getSubstitution_def)
  next
    from g f show "?\<Phi> ([] @ s)" by simp
  qed
  then show ?thesis by (simp add: replaceRx_def segText_segOut)
qed

lemma m_emptyP:
  "m flags_g rx_emptyP (b, xs, k) =
     (if prefix ''<p></p>'' xs then [(rev ''<p></p>'' @ b, drop (length ''<p></p>'') xs, k)] else [])"
  unfolding rx_emptyP_def by (rule m_lit[OF ic_g])

lemma removal_inv:
  assumes "gfree (A @ xs)" "\<And>a c. A @ xs = a @ ''<p></p>'' @ c \<Longrightarrow> length A \<le> length a"
  shows "\<not> sublist ''<p></p>'' (A @ concat (map (segText []) (scan flags_g rx_emptyP b xs)))"
  using assms
proof (induction "length xs" arbitrary: xs b A rule: less_induct)
  case less
  show ?case
  proof (cases xs)
    case Nil
    have "\<not> sublist ''<p></p>'' A"
    proof
      assume "sublist ''<p></p>'' A"
      then obtain a c where e: "A = a @ ''<p></p>'' @ c" unfolding sublist_def by blast
      with Nil less.prems(2)[of a c] have "length A \<le> length a" by simp
      with e show False by simp
    qed
    with Nil show ?thesis by (simp add: m_emptyP)
  next
    case (Cons x xs')
    show ?thesis
    proof (cases "prefix ''<p></p>'' xs")
      case True
      let ?B0 = "drop (length ''<p></p>'') xs"
      from prefix_drop_id[OF True] have xs: "xs = ''<p></p>'' @ ?B0" .
      from xs less.prems(1) have g: "gfree (A @ ''<p></p>'' @ ?B0)" by simp
      have len: "length ?B0 < length xs" using xs by (metis length_append length_greater_0_conv less_add_same_cancel2 list.distinct(1))
      have inv: "\<And>a c. A @ ?B0 = a @ ''<p></p>'' @ c \<Longrightarrow> length A \<le> length a"
      proof -
        fix a c assume e: "A @ ?B0 = a @ ''<p></p>'' @ c"
        from split2[OF e] show "length A \<le> length a"
        proof (elim disjE exE conjE)
          fix u assume u: "A = a @ ''<p></p>'' @ u"
          then have "A @ xs = a @ ''<p></p>'' @ (u @ xs)" by simp
          from less.prems(2)[OF this] u show ?thesis by simp
        next
          fix x1 y1 assume w: "''<p></p>'' = x1 @ y1" and ne: "x1 \<noteq> []" "y1 \<noteq> []" and a: "A = a @ x1"
          from a ne have ane: "A \<noteq> []" by simp
          from a ne have "last x1 = last A" by simp
          with gfree_last[OF g ane] have l: "last x1 = CHR ''>''" by simp
          from w have "x1 \<in> set (prefixes ''<p></p>'')" by (simp only: in_set_prefixes prefix_def) blast
          then have "x1 \<in> {[], ''<'', ''<p'', ''<p>'', ''<p><'', ''<p></'', ''<p></p'', ''<p></p>''}"
            by (simp del: in_set_prefixes)
          with ne w l have "x1 = ''<p>''" by auto
          with a have "suffix ''<p>'' A" by (simp add: suffix_def)
          with gfree_not_p[OF g] show ?thesis by blast
        next
          fix v assume "a = A @ v" then show ?thesis by simp
        qed
      qed
      from less.hyps[OF len gfree_delete[OF g] inv]
      have "\<not> sublist ''<p></p>'' (A @ concat (map (segText []) (scan flags_g rx_emptyP (rev ''<p></p>'' @ b) ?B0)))" .
      moreover have "scan flags_g rx_emptyP b xs =
          Matched ''<p></p>'' Map.empty # scan flags_g rx_emptyP (rev ''<p></p>'' @ b) ?B0"
      proof -
        have mm: "m flags_g rx_emptyP (b, xs, Map.empty) = [(rev ''<p></p>'' @ b, ?B0, Map.empty)]"
          unfolding m_emptyP using True by (rule if_P)
        have tk: "take (length ''<p></p>'') xs = ''<p></p>''"
          using True by (metis append_eq_conv_conj prefix_def)
        have l1: "length ?B0 < Suc (length xs')" using len Cons by simp
        have "length xs = length ''<p></p>'' + length ?B0" using xs by (metis length_append)
        with Cons have l2: "Suc (length xs') - length ?B0 = length ''<p></p>''" by simp
        have "scan flags_g rx_emptyP b (x # xs') =
           (case m flags_g rx_emptyP (b, x # xs', Map.empty) of
              [] \<Rightarrow> Unmatched x # scan flags_g rx_emptyP (x # b) xs'
            | st # _ \<Rightarrow>
                if remaining st < Suc (length xs')
                then Matched (take (Suc (length xs') - remaining st) (x # xs')) (snd (snd st))
                       # scan flags_g rx_emptyP (fst st) (fst (snd st))
                else Matched [] (snd (snd st)) # Unmatched x # scan flags_g rx_emptyP (x # b) xs')"
          by (rule scan.simps(2))
        then have "scan flags_g rx_emptyP b xs =
           (case m flags_g rx_emptyP (b, xs, Map.empty) of
              [] \<Rightarrow> Unmatched x # scan flags_g rx_emptyP (x # b) xs'
            | st # _ \<Rightarrow>
                if remaining st < Suc (length xs')
                then Matched (take (Suc (length xs') - remaining st) xs) (snd (snd st))
                       # scan flags_g rx_emptyP (fst st) (fst (snd st))
                else Matched [] (snd (snd st)) # Unmatched x # scan flags_g rx_emptyP (x # b) xs')"
          unfolding Cons[symmetric] .
        also have "\<dots> = Matched ''<p></p>'' Map.empty # scan flags_g rx_emptyP (rev ''<p></p>'' @ b) ?B0"
          unfolding mm using l1 l2 tk by (simp add: remaining_def del: length_drop)
        finally show ?thesis .
      qed
      ultimately show ?thesis by (simp add: getSubstitution_def)
    next
      case False
      from less.prems(1) Cons have g: "gfree ((A @ [x]) @ xs')" by simp
      have inv: "\<And>a c. (A @ [x]) @ xs' = a @ ''<p></p>'' @ c \<Longrightarrow> length (A @ [x]) \<le> length a"
      proof -
        fix a c assume e: "(A @ [x]) @ xs' = a @ ''<p></p>'' @ c"
        with Cons have e': "A @ xs = a @ ''<p></p>'' @ c" by simp
        from less.prems(2)[OF e'] have le: "length A \<le> length a" .
        have "length A \<noteq> length a"
        proof
          assume "length A = length a"
          with e' have "xs = ''<p></p>'' @ c" by simp
          with False show False by (simp add: prefix_def)
        qed
        with le show "length (A @ [x]) \<le> length a" by simp
      qed
      from Cons have len: "length xs' < length xs" by simp
      from less.hyps[OF len g inv]
      have "\<not> sublist ''<p></p>'' ((A @ [x]) @ concat (map (segText []) (scan flags_g rx_emptyP (x # b) xs')))" .
      moreover have "scan flags_g rx_emptyP b xs = Unmatched x # scan flags_g rx_emptyP (x # b) xs'"
      proof -
        have mm: "m flags_g rx_emptyP (b, xs, Map.empty) = []"
          unfolding m_emptyP using False by (rule if_not_P)
        have "scan flags_g rx_emptyP b (x # xs') =
           (case m flags_g rx_emptyP (b, x # xs', Map.empty) of
              [] \<Rightarrow> Unmatched x # scan flags_g rx_emptyP (x # b) xs'
            | st # _ \<Rightarrow>
                if remaining st < Suc (length xs')
                then Matched (take (Suc (length xs') - remaining st) (x # xs')) (snd (snd st))
                       # scan flags_g rx_emptyP (fst st) (fst (snd st))
                else Matched [] (snd (snd st)) # Unmatched x # scan flags_g rx_emptyP (x # b) xs')"
          by (rule scan.simps(2))
        then have "scan flags_g rx_emptyP b xs =
           (case m flags_g rx_emptyP (b, xs, Map.empty) of
              [] \<Rightarrow> Unmatched x # scan flags_g rx_emptyP (x # b) xs'
            | st # _ \<Rightarrow>
                if remaining st < Suc (length xs')
                then Matched (take (Suc (length xs') - remaining st) xs) (snd (snd st))
                       # scan flags_g rx_emptyP (fst st) (fst (snd st))
                else Matched [] (snd (snd st)) # Unmatched x # scan flags_g rx_emptyP (x # b) xs')"
          unfolding Cons[symmetric] .
        then show ?thesis unfolding mm by simp
      qed
      ultimately show ?thesis by simp
    qed
  qed
qed

lemma removal_pfree:
  assumes "gfree s"
  shows "\<not> sublist ''<p></p>'' (replaceRx flags_g rx_emptyP [] s)"
  using removal_inv[of "[]" s "[]"] assms by (simp add: replaceRx_def)

lemma strip_head_free:
  assumes shape: "\<And>mt k. isMatch fl r mt k \<Longrightarrow> \<exists>p g. mt = p @ g \<and> k 1 = Some g \<and> headCheck w g"
    and s: "\<not> sublist w s"
  shows "\<not> sublist w (replaceRx fl r [PGroup 1] s)"
proof -
  have "\<not> sublist w ([] @ concat (map (segOut (getSubstitution [PGroup 1])) (scan fl r [] s)))"
  proof (rule scan_ref[where \<Phi> = "\<lambda>s. \<not> sublist w s"])
    fix b b' mt B0 k B' A0
    assume mem: "(b', B0, k) \<in> set (m fl r (b, mt @ B0, Map.empty))"
      and ref: "\<And>A. \<not> sublist w (A @ B0) \<Longrightarrow> \<not> sublist w (A @ B')"
      and pre: "\<not> sublist w (A0 @ mt @ B0)"
    from mem have "isMatch fl r mt k" unfolding isMatch_def by blast
    from shape[OF this] obtain p g where mt: "mt = p @ g" and k: "k 1 = Some g" and hc: "headCheck w g"
      by blast
    from pre mt have "\<not> sublist w ((A0 @ p) @ g @ B0)" by simp
    from sublist_mid[OF this] have "\<not> sublist w (g @ B0)" by simp
    from ref[OF this] have gb: "\<not> sublist w (g @ B')" .
    from sublist_mid[OF pre] have "\<not> sublist w A0" by simp
    with headCheck_sound[OF hc] gb have "\<not> sublist w (A0 @ g @ B')" unfolding headSealed_def by blast
    with k show "\<not> sublist w (A0 @ getSubstitution [PGroup 1] mt k @ B')"
      by (simp add: getSubstitution_def)
  next
    from s show "\<not> sublist w ([] @ s)" by simp
  qed
  then show ?thesis by (simp add: replaceRx_def segText_segOut)
qed

lemma strip_tail_free:
  assumes shape: "\<And>mt k. isMatch fl r mt k \<Longrightarrow> \<exists>g q. mt = g @ q \<and> k 1 = Some g \<and> tailCheck w g"
    and s: "\<not> sublist w s"
  shows "\<not> sublist w (replaceRx fl r [PGroup 1] s)"
proof -
  have "\<not> sublist w ([] @ concat (map (segOut (getSubstitution [PGroup 1])) (scan fl r [] s)))"
  proof (rule scan_ref[where \<Phi> = "\<lambda>s. \<not> sublist w s"])
    fix b b' mt B0 k B' A0
    assume mem: "(b', B0, k) \<in> set (m fl r (b, mt @ B0, Map.empty))"
      and ref: "\<And>A. \<not> sublist w (A @ B0) \<Longrightarrow> \<not> sublist w (A @ B')"
      and pre: "\<not> sublist w (A0 @ mt @ B0)"
    from mem have "isMatch fl r mt k" unfolding isMatch_def by blast
    from shape[OF this] obtain g q where mt: "mt = g @ q" and k: "k 1 = Some g" and tc: "tailCheck w g"
      by blast
    from pre mt have "\<not> sublist w ((A0 @ g) @ q @ B0)" by simp
    from sublist_mid[OF this] have ag: "\<not> sublist w (A0 @ g)" by simp
    from sublist_mid[OF pre] have "\<not> sublist w ([] @ B0)" by simp
    from ref[OF this] have "\<not> sublist w B'" by simp
    with tailCheck_sound[OF tc] ag have "\<not> sublist w (A0 @ g @ B')" unfolding tailSealed_def by blast
    with k show "\<not> sublist w (A0 @ getSubstitution [PGroup 1] mt k @ B')"
      by (simp add: getSubstitution_def)
  next
    from s show "\<not> sublist w ([] @ s)" by simp
  qed
  then show ?thesis by (simp add: replaceRx_def segText_segOut)
qed

lemma pBefore_free:
  assumes "headCheck w t" "\<not> sublist w s"
  shows "\<not> sublist w (replaceRx flags_g (rx_pBefore t) [PGroup 1] s)"
proof (rule strip_head_free)
  fix mt k assume "isMatch flags_g (rx_pBefore t) mt k"
  from isMatch_pBefore[OF this] assms(1)
  show "\<exists>p g. mt = p @ g \<and> k 1 = Some g \<and> headCheck w g" by blast
qed (rule assms(2))

lemma pAfter_free:
  assumes "tailCheck w t" "\<not> sublist w s"
  shows "\<not> sublist w (replaceRx flags_g (rx_pAfter t) [PGroup 1] s)"
proof (rule strip_tail_free)
  fix mt k assume "isMatch flags_g (rx_pAfter t) mt k"
  from isMatch_pAfter[OF this] assms(1)
  show "\<exists>g q. mt = g @ q \<and> k 1 = Some g \<and> tailCheck w g" by blast
qed (rule assms(2))

lemma pHeadingOpen_free:
  assumes "\<forall>d. headCheck w (''<h'' @ [d] @ ''>'')" "\<not> sublist w s"
  shows "\<not> sublist w (replaceRx flags_g rx_pHeadingOpen [PGroup 1] s)"
proof (rule strip_head_free)
  fix mt k assume "isMatch flags_g rx_pHeadingOpen mt k"
  from isMatch_pHeadingOpen[OF this] obtain d where
    "mt = ''<p>'' @ (''<h'' @ [d] @ ''>'')" "k 1 = Some (''<h'' @ [d] @ ''>'')" by auto
  with assms(1) show "\<exists>p g. mt = p @ g \<and> k 1 = Some g \<and> headCheck w g" by blast
qed (rule assms(2))

lemma pHeadingClose_free:
  assumes "\<forall>d. tailCheck w (''</h'' @ [d] @ ''>'')" "\<not> sublist w s"
  shows "\<not> sublist w (replaceRx flags_g rx_pHeadingClose [PGroup 1] s)"
proof (rule strip_tail_free)
  fix mt k assume "isMatch flags_g rx_pHeadingClose mt k"
  from isMatch_pHeadingClose[OF this] obtain d where
    "mt = (''</h'' @ [d] @ ''>'') @ ''</p>''" "k 1 = Some (''</h'' @ [d] @ ''>'')" by auto
  with assms(1) show "\<exists>g q. mt = g @ q \<and> k 1 = Some g \<and> tailCheck w g" by blast
qed (rule assms(2))

lemma strips_free:
  assumes "stripOK w" "\<not> sublist w s"
  shows "\<not> sublist w (strips s)"
  unfolding strips_def using assms unfolding stripOK_def
  by (intro pBefore_free pAfter_free pHeadingOpen_free pHeadingClose_free) blast+

lemma stripOK_emptyP: "stripOK ''<p></p>''"
  by (simp add: stripOK_def check_defs)

lemma wordOK_ol: "wordOK ''<ol''"
  by (simp add: wordOK_def stripOK_def wrapOK_def delOK_def inlineTemplates_def fenceTemplate_def check_defs)

lemma escapeHtml_free: "CHR ''<'' \<in> set w \<Longrightarrow> \<not> sublist w (escapeHtml s)"
  using escapeHtml_no_angle[of s] set_mono_sublist[of w "escapeHtml s"] by blast

lemma markup_no_empty_paragraph:
  assumes e: "\<not> sublist ''<p>'' e"
  shows "\<exists>h. codeBlocks e = Inr h \<and> \<not> sublist ''<p></p>'' (markup h)"
proof -
  from codeBlocks_free[OF _ _ e] p_templates obtain h where
    h: "codeBlocks e = Inr h" and hf: "\<not> sublist ''<p>'' h" by auto
  from inlineStages_free[OF _ _ hf] p_templates have "\<not> sublist ''<p>'' (inlineStages h)" by simp
  then have "precP (inlineStages h)" by (rule pfree_precP)
  then have "precP (lineBreaks (inlineStages h))" by (rule lineBreaks_precP)
  then have "gfree (wrapParagraph (lineBreaks (inlineStages h)))" by (rule wrap_gfree)
  then have "\<not> sublist ''<p></p>'' (replaceRx flags_g rx_emptyP [] (wrapParagraph (lineBreaks (inlineStages h))))"
    by (rule removal_pfree)
  from strips_free[OF stripOK_emptyP this] have "\<not> sublist ''<p></p>'' (markup h)"
    by (simp add: markup_stages cleanUp_strips)
  with h show ?thesis by simp
qed

lemma markup_free:
  assumes "wordOK w" and e: "\<not> sublist ''<p>'' e" and ew: "\<not> sublist w e"
  shows "\<exists>h. codeBlocks e = Inr h \<and> \<not> sublist w (markup h)"
proof -
  from assms have lt: "CHR ''<'' \<in> set w" and ft: "tmplOK w fenceTemplate"
    and it: "list_all (tmplOK w) inlineTemplates"
    and bt: "tmplOK w [PLit ''</p><p>'']" "tmplOK w [PLit ''<br />'']"
    and wo: "wrapOK w" and dk: "delOK w" and so: "stripOK w" by (simp_all add: wordOK_def)
  from lt have ne: "w \<noteq> []" by auto
  from codeBlocks_Inr obtain h where h: "codeBlocks e = Inr h" by blast
  from codeBlocks_free[OF _ _ e] p_templates h have hf: "\<not> sublist ''<p>'' h" by auto
  from codeBlocks_free[OF ft ne ew] h have hw: "\<not> sublist w h" by auto
  from inlineStages_free[OF _ _ hf] p_templates have "\<not> sublist ''<p>'' (inlineStages h)" by simp
  then have "precP (inlineStages h)" by (rule pfree_precP)
  then have "precP (lineBreaks (inlineStages h))" by (rule lineBreaks_precP)
  then have g: "gfree (wrapParagraph (lineBreaks (inlineStages h)))" by (rule wrap_gfree)
  from inlineStages_free[OF it ne hw] have "\<not> sublist w (inlineStages h)" .
  from lineBreaks_free[OF bt ne this] have "\<not> sublist w (lineBreaks (inlineStages h))" .
  from wrap_free[OF wo this] have "\<not> sublist w (wrapParagraph (lineBreaks (inlineStages h)))" .
  from removal_keeps[OF g dk this]
  have "\<not> sublist w (replaceRx flags_g rx_emptyP [] (wrapParagraph (lineBreaks (inlineStages h))))" .
  from strips_free[OF so this] have "\<not> sublist w (markup h)"
    by (simp add: markup_stages cleanUp_strips)
  with h show ?thesis by simp
qed

lemma parseMarkdown_free:
  assumes "wordOK w"
  shows "\<exists>out. parseMarkdown s False = Inr out \<and> \<not> sublist w out"
proof -
  from assms have lt: "CHR ''<'' \<in> set w" by (simp add: wordOK_def)
  have e: "\<not> sublist ''<p>'' (escapeHtml s)" by (rule escapeHtml_free) simp
  have ew: "\<not> sublist w (escapeHtml s)" using lt by (rule escapeHtml_free)
  from markup_free[OF assms e ew] show ?thesis by (auto simp: parseMarkdown_def Let_def)
qed

lemma wordOK_script: "wordOK ''<script>''"
  by (simp add: wordOK_def stripOK_def wrapOK_def delOK_def inlineTemplates_def fenceTemplate_def check_defs)

lemma rx_liRun_item: "rx_liRun = oneOrMore rx_liItem"
  by (simp add: rx_liRun_def rx_liItem_def)

lemma markup_listInput:
  "markup html = cleanUp (wrapParagraph (lineBreaks (taskLists (orderedLists
     (replaceRx flags_g (oneOrMore rx_liItem) [PLit ''<ul>'', PWhole, PLit ''</ul>''] (listInput html))))))"
  by (simp add: markup_def listInput_def unorderedLists_def rx_liRun_item)

declare starRuns.simps [simp del]

lemma starRuns_states: "map fst (starRuns fl r st) = m fl (Star r) st"
proof (induction fl r st rule: starRuns.induct)
  case (1 fl r st)
  have "map fst (concat (map (\<lambda>st'. map (\<lambda>(s, n). (s, Suc n)) (starRuns fl r st'))
                  (filter (\<lambda>st'. remaining st' < remaining st) (m fl r st))))
        = concat (map (m fl (Star r)) (filter (\<lambda>st'. remaining st' < remaining st) (m fl r st)))"
    unfolding map_concat
    by (rule arg_cong[where f=concat]) (auto simp: 1[symmetric] case_prod_beta comp_def)
  then show ?case
    by (subst starRuns.simps, subst m.simps(7)) simp
qed












lemma needsFirst_chr1:
  assumes "\<not> ignoreCase fl" "c \<in> F"
  shows "needsFirst fl (Chr c) F"
  unfolding needsFirst_def
proof (intro allI impI)
  fix b ys k assume a: "m fl (Chr c) (b, ys, k) \<noteq> []"
  show "ys \<noteq> [] \<and> hd ys \<in> F"
  proof (cases ys)
    case Nil with a show ?thesis by (simp add: m.simps(2))
  next
    case (Cons y ys')
    with a assms show ?thesis by (simp add: m.simps(2) canonicalize_def split: if_splits)
  qed
qed


lemma needsFirst_class:
  "(\<And>x. classMatch fl items x \<noteq> neg \<Longrightarrow> x \<in> F) \<Longrightarrow> needsFirst fl (Seq (Class neg items) r) F"
  by (auto simp: needsFirst_def m.simps(5) m.simps(4) split: list.splits if_splits)

lemma not_ic [simp]: "\<not> ignoreCase flags_g" "\<not> ignoreCase flags_gm"
  by (simp_all add: flags_g_def flags_gm_def)














lemma star_class_cons:
  "classMatch fl items x \<noteq> neg \<Longrightarrow>
     m fl (Star (Class neg items)) (b, x # xs, k)
       = m fl (Star (Class neg items)) (x # b, xs, k) @ [(b, x # xs, k)]"
  by (subst m.simps(7)) (simp add: m.simps(4) remaining_def)






















section \<open>The claims of the specification\<close>

text \<open>
  C1 (as stated, refuted). The body of a fenced block stays in the working string, and the
  rules that follow the fence rule do reach it: the body \<^verbatim>\<open>**not bold**\<close> comes out as a
  strong element inside the code element.
\<close>

theorem fence_body_is_transformed:
  \<open>parseMarkdown ''```\<newline>**not bold**\<newline>```'' False
     = Inr ''<pre class="code-block" data-lang=""><code><strong>not bold</strong></code></pre>''\<close>
  by code_simp

text \<open>
  C2 (the code departs from the claim). An image with a non-empty alternative text is taken
  by the link rule, which runs first and does not look at the exclamation mark in front:
  \<^verbatim>\<open>![alt](url)\<close> renders as an exclamation mark and an anchor, and no image element.
\<close>

theorem image_rendered_as_link:
  \<open>parseMarkdown ''![alt](url)'' False
     = Inr ''<p>!<a href="url" target="_blank" rel="noopener noreferrer">alt</a></p>''\<close>
  by code_simp




text \<open>
  C4. With \<^verbatim>\<open>allowHtml = false\<close> the text is escaped first and everything else works on the
  escaped text; with \<^verbatim>\<open>allowHtml = true\<close> the text goes on as it is. Replacing the ampersand
  first, then the two angle brackets, escapes every character exactly once. The rendering of
  \<^verbatim>\<open><script>\<close> without raw HTML does not contain \<^verbatim>\<open><script>\<close>, and no rendering without raw HTML
  does; the rendering of \<^verbatim>\<open><b>x</b>\<close> with raw HTML contains \<^verbatim>\<open><b>\<close>.
\<close>

theorem escape_stage:
  \<open>parseMarkdown s False = (case codeBlocks (escapeHtml s) of Inl e \<Rightarrow> Inl e | Inr h \<Rightarrow> Inr (markup h))
   \<and> parseMarkdown s True = (case codeBlocks s of Inl e \<Rightarrow> Inl e | Inr h \<Rightarrow> Inr (markup h))
   \<and> escapeHtml s = concat (map (\<lambda>c. if c = CHR ''&'' then ''&amp;''
                                       else if c = CHR ''<'' then ''&lt;''
                                       else if c = CHR ''>'' then ''&gt;'' else [c]) s)
   \<and> parseMarkdown ''<script>'' False = Inr ''<p>&lt;script&gt;</p>''
   \<and> \<not> sublist ''<script>'' ''<p>&lt;script&gt;</p>''
   \<and> (\<exists>out. parseMarkdown s False = Inr out \<and> \<not> sublist ''<script>'' out)
   \<and> parseMarkdown ''<b>x</b>'' True = Inr ''<b>x</b>''
   \<and> sublist ''<b>'' ''<b>x</b>''\<close>
proof (intro conjI)
  show \<open>parseMarkdown s False = (case codeBlocks (escapeHtml s) of Inl e \<Rightarrow> Inl e | Inr h \<Rightarrow> Inr (markup h))\<close>
    by (simp add: parseMarkdown_def Let_def)
  show \<open>parseMarkdown s True = (case codeBlocks s of Inl e \<Rightarrow> Inl e | Inr h \<Rightarrow> Inr (markup h))\<close>
    by (simp add: parseMarkdown_def Let_def)
  show \<open>escapeHtml s = concat (map (\<lambda>c. if c = CHR ''&'' then ''&amp;''
                                       else if c = CHR ''<'' then ''&lt;''
                                       else if c = CHR ''>'' then ''&gt;'' else [c]) s)\<close>
    by (rule escapeHtml_chars)
  show \<open>parseMarkdown ''<script>'' False = Inr ''<p>&lt;script&gt;</p>''\<close>
    by code_simp
  show \<open>\<not> sublist ''<script>'' ''<p>&lt;script&gt;</p>''\<close>
    by code_simp
  show \<open>\<exists>out. parseMarkdown s False = Inr out \<and> \<not> sublist ''<script>'' out\<close>
    by (rule parseMarkdown_free[OF wordOK_script])
  show \<open>parseMarkdown ''<b>x</b>'' True = Inr ''<b>x</b>''\<close>
    by code_simp
  show \<open>sublist ''<b>'' ''<b>x</b>''\<close>
    by code_simp
qed

text \<open>
  C5. Bold before italic: \<^verbatim>\<open>**_x_**\<close> with \<^verbatim>\<open>allowHtml = false\<close> renders as a strong
  element around an emphasis element, properly nested.
\<close>

theorem bold_before_italic:
  \<open>parseMarkdown ''**_x_**'' False = Inr ''<strong><em>x</em></strong>''\<close>
  by code_simp

text \<open>
  C6. The empty document with \<^verbatim>\<open>allowHtml = false\<close> renders as the empty string: the
  paragraph wrapper put around it is removed again by the clean-up.
\<close>

theorem empty_document:
  \<open>parseMarkdown [] False = Inr []\<close>
  by code_simp

text \<open>
  C8. Highlighting \<^verbatim>\<open>return x\<close> as python puts the word \<^verbatim>\<open>return\<close> into a keyword span
  and leaves \<^verbatim>\<open>x\<close> outside of any span.
\<close>

theorem highlight_return_python:
  \<open>highlightCode ''return x'' ''python'' = Inr ''<span class="keyword">return</span> x''\<close>
  by code_simp

text \<open>
  C9 (the code departs from the claim). A language name that is a property of
  \<^verbatim>\<open>Object.prototype\<close> is found in the keyword table through the prototype chain, the
  fallback to the empty list is not taken, and the call of \<^verbatim>\<open>forEach\<close> on the value found
  throws: plain code with the language \<^verbatim>\<open>constructor\<close> is not returned unchanged.
\<close>

theorem highlight_inherited_key:
  \<open>highlightCode ''x'' ''constructor'' = Inl TypeError\<close>
  by code_simp

text \<open>
  C10 (as stated, refuted). With raw HTML allowed the clean-up removes the inner empty
  paragraph of \<^verbatim>\<open><p><p></p></p>\<close> and leaves the outer pair, which is an empty paragraph
  again.
\<close>

theorem nested_empty_paragraph:
  \<open>parseMarkdown ''<p><p></p></p>'' True = Inr ''<p></p>''\<close>
  by code_simp

text \<open>
  C10 (amended). With \<^verbatim>\<open>allowHtml = false\<close>, or for a text that contains no \<^verbatim>\<open><p>\<close>, the
  rendering is free of \<^verbatim>\<open><p></p>\<close>: each paragraph tag then comes from the pipeline itself,
  every opening tag but the one of the wrapper follows a closing tag, the one pass that
  removes the empty paragraphs leaves none, and the steps after it do not bring one back.
\<close>

theorem no_empty_paragraph:
  assumes \<open>\<not> allowHtml \<or> \<not> sublist ''<p>'' s\<close>
  shows \<open>\<exists>out. parseMarkdown s allowHtml = Inr out \<and> \<not> sublist ''<p></p>'' out\<close>
proof -
  have \<open>\<not> sublist ''<p>'' (if allowHtml then s else escapeHtml s)\<close>
    using assms escapeHtml_free[of \<open>''<p>''\<close> s] by auto
  from markup_no_empty_paragraph[OF this] show ?thesis
    by (auto simp: parseMarkdown_def Let_def)
qed

text \<open>
  The amended C10 at a text with raw HTML and no paragraph tag.
\<close>

theorem no_empty_paragraph_raw_html:
  \<open>\<not> sublist ''<p>'' ''<b>x</b>''
   \<and> (\<exists>out. parseMarkdown ''<b>x</b>'' True = Inr out \<and> \<not> sublist ''<p></p>'' out)\<close>
proof -
  have h: \<open>\<not> sublist ''<p>'' ''<b>x</b>''\<close>
    by code_simp
  then have \<open>\<not> True \<or> \<not> sublist ''<p>'' ''<b>x</b>''\<close>
    by simp
  from h no_empty_paragraph[OF this] show ?thesis by blast
qed

end
